theory Spec2Isabelle
  imports Complex_Main
begin

section \<open>Data model of index.js\<close>

text \<open>
  A stock item of the feed (\<open>{name, quantity, emoji}\<close>), the feed's \<open>data\<close> object and a
  document of the \<open>User\<close> collection.  The \<open>data\<close> object is keyed by category name; the
  map gives, for a key \<open>c\<close>, the value of \<open>stockData.c?.items\<close>: \<open>None\<close> when the
  category or its \<open>items\<close> is missing or falsy, an array of items, or some other truthy
  value, which has no \<open>forEach\<close> (the feed is not validated beyond \<open>status\<close> and the
  presence of \<open>data\<close>).  \<open>user.name\<close> is the field \<open>uname\<close>, since
  \<open>name\<close> is the item's field.  Numbers that hold quantities and millisecond
  timestamps are integers.
\<close>

record item =
  name :: string
  quantity :: int
  emoji :: string

datatype items = ItemArray "item list" | NotAnArray

type_synonym stock = "string \<rightharpoonup> items"

type_synonym ledger = "string \<rightharpoonup> int"

record user =
  uid :: string
  uname :: string
  seeds :: "string list"
  gear :: "string list"
  eggs :: "string list"
  travelingmerchant :: "string list"
  lastNotified :: ledger

datatype message = Text string | RegistrationTemplate string

text \<open>
  What the code can throw: a TypeError (a property of \<open>null\<close>, a \<open>forEach\<close> that is not a
  function), the rejection of \<open>axios.post\<close>, the rejection of a database call, and the
  error of the ledger's map for a key it does not accept.
\<close>

datatype error = TypeError | AxiosError | MongoError | MapKeyError

datatype ws_data = Unparsable | Payload string "stock option"

datatype ws_event = Open | Message ws_data | Error | Close

datatype callback = ConnectWebSocket

text \<open>
  The process state: the module-level variables (\<open>stockData\<close>, \<open>keepAliveInterval\<close>,
  \<open>unregisteredMessageCache\<close>), the timers of the event loop (\<open>intervals\<close>: the handles
  of the running \<open>setInterval\<close> timers; \<open>timeouts\<close>: the pending \<open>setTimeout\<close> calls
  with their delay in milliseconds; \<open>handles\<close>: the next fresh handle), the number of
  \<open>WebSocket\<close> objects constructed so far, the \<open>User\<close> collection, the calls of
  \<open>axios.post\<close> made so far (recipient, message, delivered or not), and two counters:
  how often the clock has been read and how often an \<open>async\<close> function has been
  suspended at an \<open>await\<close>.
\<close>

record state =
  stockData :: "stock option"
  keepAliveInterval :: "nat option"
  intervals :: "nat list"
  timeouts :: "(nat \<times> callback) list"
  handles :: nat
  sockets :: nat
  unregisteredMessageCache :: "string \<rightharpoonup> int"
  users :: "user list"
  outbox :: "(string \<times> message \<times> bool) list"
  reads :: nat
  awaits :: nat

text \<open>
  The environment of one execution: \<open>now k\<close> is what the \<open>k\<close>-th reading of the clock
  returns (\<open>Date.now()\<close>, \<open>new Date()\<close>), \<open>manila\<close> renders a time for the zone
  Asia/Manila, \<open>feed k\<close> are the WebSocket events whose handlers run while the \<open>k\<close>-th
  \<open>await\<close> is suspended, and \<open>post_fails k\<close>, \<open>db_fails k\<close> say whether the HTTP call,
  respectively the database call, awaited there rejects.  While the matching run is
  suspended only feed handlers run: overlapping cron runs are not interleaved (the
  specification assumes there are none).  Two overlapping registration prompts are
  modelled apart, by \<open>overlapping_attempts\<close>.
\<close>

record env =
  now :: "nat \<Rightarrow> int"
  manila :: "int \<Rightarrow> string"
  feed :: "nat \<Rightarrow> ws_event list"
  post_fails :: "nat \<Rightarrow> bool"
  db_fails :: "nat \<Rightarrow> bool"

definition MESSAGE_COOLDOWN :: int where
  "MESSAGE_COOLDOWN = 5 * 60 * 1000"

definition DAY :: int where
  "DAY = 24 * 60 * 60 * 1000"

section \<open>formatValue\<close>

text \<open>
  \<open>formatValue\<close> divides two Numbers and calls \<open>toFixed(1)\<close>.  Its argument is an integer
  that a Number holds exactly.  For such integers \<open>a \<ge> b > 0\<close>, \<open>number_div a b\<close> is the
  binary64 quotient as a rational: with \<open>2 ^ p \<le> a / b < 2 ^ (p + 1)\<close>, where \<open>p\<close> is
  \<open>ilog2 (a div b)\<close>, the quotient is rounded, ties to even, to a multiple of
  \<open>2 ^ (p - 52)\<close>.  \<open>show_int\<close> is the decimal numeral of a non-negative integer; the
  matching calls \<open>formatValue\<close> only with a quantity that has passed \<open>quantity > 0\<close>.
\<close>

definition digit_char :: "int \<Rightarrow> char" where
  "digit_char d = char_of (48 + d)"

function show_int :: "int \<Rightarrow> string" where
  "show_int n = (if n < 10 then [digit_char n] else show_int (n div 10) @ [digit_char (n mod 10)])"
  by pat_completeness auto
termination
  by (relation "measure nat") auto

declare show_int.simps [simp del]

text \<open>The number that a string of decimal digits denotes.\<close>

definition numeral_value :: "string \<Rightarrow> int" where
  "numeral_value s = foldl (\<lambda>a c. 10 * a + (of_char c - 48)) 0 s"

function ilog2 :: "int \<Rightarrow> nat" where
  "ilog2 q = (if q < 2 then 0 else Suc (ilog2 (q div 2)))"
  by pat_completeness auto
termination
  by (relation "measure nat") auto

declare ilog2.simps [simp del]

definition round_half_even :: "int \<Rightarrow> int \<Rightarrow> int" where
  "round_half_even n d =
     (let q = n div d; r = n mod d
      in if 2 * r < d then q else if d < 2 * r then q + 1 else if even q then q else q + 1)"

definition number_div :: "int \<Rightarrow> int \<Rightarrow> rat" where
  "number_div a b =
     (let p = ilog2 (a div b)
      in if p \<le> 52
         then of_int (round_half_even (a * 2 ^ (52 - p)) b) / 2 ^ (52 - p)
         else of_int (round_half_even a (b * 2 ^ (p - 52)) * 2 ^ (p - 52)))"

text \<open>
  \<open>Number.prototype.toString\<close> for an integral Number \<open>x \<ge> 10 ^ 21\<close>.  With \<open>n\<close> the number
  of decimal digits of \<open>x\<close>, ECMAScript takes the least \<open>k\<close> for which some integer \<open>s\<close> of
  \<open>k\<close> digits has \<open>s \<times> 10 ^ (n - k)\<close> convert to the Number \<open>x\<close>, and among several such \<open>s\<close>
  the one with \<open>s \<times> 10 ^ (n - k)\<close> closest to \<open>x\<close>, the even one of two.  The result is the
  first digit of \<open>s\<close>, a point and the other digits (if any), \<open>e+\<close> and \<open>n - 1\<close>.
  \<open>round_trips m x\<close> says that the integer \<open>m\<close> converts to the Number \<open>x\<close>; only the two
  integers next to \<open>x / 10 ^ (n - k)\<close> can qualify.  When the next power of ten above \<open>x\<close>
  converts to \<open>x\<close>, the digits are those of the power: one digit 1 and one more in the
  exponent.
\<close>

definition round_trips :: "int \<Rightarrow> int \<Rightarrow> bool" where
  "round_trips m x = (number_div m 1 = of_int x)"

definition shortest :: "int \<Rightarrow> nat \<Rightarrow> nat \<Rightarrow> int option" where
  "shortest x n k =
     (let scale = 10 ^ (n - k); lo = x div scale; r = x mod scale;
          ok = (\<lambda>s. 10 ^ (k - 1) \<le> s \<and> s < 10 ^ k \<and> round_trips (s * scale) x)
      in if ok lo \<and> ok (lo + 1)
         then Some (if 2 * r < scale then lo else if scale < 2 * r then lo + 1
                    else if even lo then lo else lo + 1)
         else if ok lo then Some lo
         else if ok (lo + 1) then Some (lo + 1)
         else None)"

fun search :: "int \<Rightarrow> nat \<Rightarrow> nat list \<Rightarrow> int" where
  "search x n [] = x"
| "search x n (k # ks) = (case shortest x n k of Some s \<Rightarrow> s | None \<Rightarrow> search x n ks)"

definition toString_exp :: "int \<Rightarrow> string" where
  "toString_exp x =
     (let n = length (show_int x)
      in if round_trips (10 ^ n) x then ''1e+'' @ show_int (int n)
         else
           (let ds = show_int (search x n [1..<n])
            in (case ds of [] \<Rightarrow> [] | [d] \<Rightarrow> [d] | d # rest \<Rightarrow> d # ''.'' @ rest) @
               ''e+'' @ show_int (int n - 1)))"

text \<open>
  \<open>toFixed1 x\<close> is \<open>x.toFixed(1)\<close> for a Number \<open>x \<ge> 0\<close>.  From \<open>10 ^ 21\<close> on (where every
  Number is integral) it is \<open>toString\<close>.  Below, it is the digits of the integer \<open>n\<close> for
  which \<open>n / 10 - x\<close> is closest to zero, the larger one of two, with a point before the
  last digit.
\<close>

definition toFixed1 :: "rat \<Rightarrow> string" where
  "toFixed1 x =
     (if 10 ^ 21 \<le> x then toString_exp \<lfloor>x\<rfloor>
      else let n = \<lfloor>10 * x + 1 / 2\<rfloor> in show_int (n div 10) @ ''.'' @ show_int (n mod 10))"

definition formatValue :: "int \<Rightarrow> string" where
  "formatValue val =
     (if val \<ge> 1000000 then ''x'' @ toFixed1 (number_div val 1000000) @ ''M''
      else if val \<ge> 1000 then ''x'' @ toFixed1 (number_div val 1000) @ ''K''
      else ''x'' @ show_int val)"

section \<open>The feed client\<close>

text \<open>
  \<open>connectWebSocket\<close> constructs a socket and registers four handlers; each handler is a
  function on the state.  A message is \<open>Unparsable\<close> when \<open>JSON.parse\<close> or the access to
  the parsed value throws, and otherwise carries \<open>status\<close> and \<open>data\<close> (\<open>None\<close> for a
  missing or falsy \<open>data\<close>).  Writing to the console is not part of the state.
\<close>

definition connectWebSocket :: "state \<Rightarrow> state" where
  "connectWebSocket st = st\<lparr>sockets := Suc (sockets st)\<rparr>"

definition setInterval :: "state \<Rightarrow> nat \<times> state" where
  "setInterval st =
     (handles st, st\<lparr>intervals := intervals st @ [handles st], handles := Suc (handles st)\<rparr>)"

definition clearInterval :: "nat option \<Rightarrow> state \<Rightarrow> state" where
  "clearInterval h st =
     (case h of None \<Rightarrow> st | Some i \<Rightarrow> st\<lparr>intervals := removeAll i (intervals st)\<rparr>)"

definition setTimeout :: "callback \<Rightarrow> nat \<Rightarrow> state \<Rightarrow> state" where
  "setTimeout f ms st = st\<lparr>timeouts := timeouts st @ [(ms, f)]\<rparr>"

definition on_open :: "state \<Rightarrow> state" where
  "on_open st = (case setInterval st of (h, st') \<Rightarrow> st'\<lparr>keepAliveInterval := Some h\<rparr>)"

definition on_message :: "ws_data \<Rightarrow> state \<Rightarrow> state" where
  "on_message d st =
     (case d of
        Unparsable \<Rightarrow> st
      | Payload status dat \<Rightarrow>
          if status \<noteq> ''success'' \<or> dat = None then st else st\<lparr>stockData := dat\<rparr>)"

definition on_error :: "state \<Rightarrow> state" where
  "on_error st = st\<lparr>stockData := None\<rparr>"

definition on_close :: "state \<Rightarrow> state" where
  "on_close st =
     setTimeout ConnectWebSocket 3000 ((clearInterval (keepAliveInterval st) st)\<lparr>stockData := None\<rparr>)"

fun handle :: "ws_event \<Rightarrow> state \<Rightarrow> state" where
  "handle Open st = on_open st"
| "handle (Message d) st = on_message d st"
| "handle Error st = on_error st"
| "handle Close st = on_close st"

text \<open>An \<open>await\<close>: the handlers of the feed events that arrive meanwhile run in order.\<close>

definition await :: "env \<Rightarrow> state \<Rightarrow> state" where
  "await e st = (fold handle (feed e (awaits st)) st)\<lparr>awaits := Suc (awaits st)\<rparr>"

section \<open>The dispatcher\<close>

text \<open>
  \<open>axios_post\<close> is the awaited \<open>axios.post\<close>: it returns the error it rejects with, if
  any.  \<open>sendMessengerMessage\<close> wraps it in \<open>try\<close>/\<open>catch\<close>; the handler only logs.
\<close>

definition axios_post :: "env \<Rightarrow> string \<Rightarrow> message \<Rightarrow> state \<Rightarrow> error option \<times> state" where
  "axios_post e to m st =
     (let failed = post_fails e (awaits st); st' = await e st
      in (if failed then Some AxiosError else None,
          st'\<lparr>outbox := outbox st' @ [(to, m, \<not> failed)]\<rparr>))"

definition sendMessengerMessage :: "env \<Rightarrow> string \<Rightarrow> message \<Rightarrow> state \<Rightarrow> error option \<times> state" where
  "sendMessengerMessage e to m st =
     (case axios_post e to m st of
        (Some err, st') \<Rightarrow> (None, st')
      | (None, st') \<Rightarrow> (None, st'))"

section \<open>The registration prompt\<close>

definition is_digit :: "char \<Rightarrow> bool" where
  "is_digit c = (48 \<le> (of_char c :: nat) \<and> (of_char c :: nat) \<le> 57)"

definition valid_uid :: "string \<Rightarrow> bool" where
  "valid_uid s = (s \<noteq> [] \<and> list_all is_digit s)"

definition sendRegistrationMessage :: "env \<Rightarrow> string \<Rightarrow> state \<Rightarrow> error option \<times> state" where
  "sendRegistrationMessage e to st =
     (case (case unregisteredMessageCache st to of
              None \<Rightarrow> (False, st)
            | Some lastSent \<Rightarrow>
                if lastSent = 0 then (False, st)
                else (now e (reads st) - lastSent < MESSAGE_COOLDOWN, st\<lparr>reads := Suc (reads st)\<rparr>)) of
        (recent, st1) \<Rightarrow>
          if recent then (None, st1)
          else if \<not> valid_uid to then (None, st1)
          else
            (case sendMessengerMessage e to (RegistrationTemplate to) st1 of
               (Some err, st2) \<Rightarrow> (Some err, st2)
             | (None, st2) \<Rightarrow>
                 (None, st2\<lparr>unregisteredMessageCache :=
                              (unregisteredMessageCache st2)(to \<mapsto> now e (reads st2)),
                            reads := Suc (reads st2)\<rparr>)))"

text \<open>
  The same function in two parts, split where it is suspended.  \<open>registration_begin\<close> is
  what runs before the post is awaited (the test of the cache and of the id); it says
  whether the call goes on.  \<open>registration_end\<close> is the awaited post and what runs after it
  (the cache is written).
\<close>

definition registration_begin :: "env \<Rightarrow> string \<Rightarrow> state \<Rightarrow> bool \<times> state" where
  "registration_begin e to st =
     (case (case unregisteredMessageCache st to of
              None \<Rightarrow> (False, st)
            | Some lastSent \<Rightarrow>
                if lastSent = 0 then (False, st)
                else (now e (reads st) - lastSent < MESSAGE_COOLDOWN, st\<lparr>reads := Suc (reads st)\<rparr>)) of
        (recent, st1) \<Rightarrow> (\<not> recent \<and> valid_uid to, st1))"

definition registration_end :: "env \<Rightarrow> string \<Rightarrow> state \<Rightarrow> error option \<times> state" where
  "registration_end e to st1 =
     (case sendMessengerMessage e to (RegistrationTemplate to) st1 of
        (Some err, st2) \<Rightarrow> (Some err, st2)
      | (None, st2) \<Rightarrow>
          (None, st2\<lparr>unregisteredMessageCache :=
                       (unregisteredMessageCache st2)(to \<mapsto> now e (reads st2)),
                     reads := Suc (reads st2)\<rparr>))"


section \<open>The scheduled matching run\<close>

text \<open>
  The callback of \<open>cron.schedule\<close>.  A step of the matching either throws, and then the
  error comes with the number of clock readings made so far, or yields the buffer
  \<open>inStockItems\<close>, the map \<open>lastNotified\<close> of the loaded document and the number of
  readings.
\<close>

type_synonym acc = "string list \<times> ledger \<times> nat"

type_synonym 'a result = "(error \<times> nat) + 'a"

definition or_zero :: "int option \<Rightarrow> int" where
  "or_zero v = (case v of None \<Rightarrow> 0 | Some t \<Rightarrow> if t = 0 then 0 else t)"

definition item_line :: "item \<Rightarrow> string" where
  "item_line it = emoji it @ '' '' @ name it @ '': '' @ formatValue (quantity it)"

text \<open>
  The schema declares \<open>lastNotified\<close> as \<open>{ type: Map, of: Number }\<close>, so the field of a
  loaded document is a Mongoose Map.  Its \<open>set\<close> throws for a key that starts with \<open>$\<close>,
  contains a dot or is one of three reserved names; \<open>get\<close> accepts every key.
\<close>

definition valid_key :: "string \<Rightarrow> bool" where
  "valid_key k =
     ((case k of [] \<Rightarrow> True | c # cs \<Rightarrow> c \<noteq> CHR ''$'') \<and> CHR ''.'' \<notin> set k \<and>
      k \<noteq> ''__proto__'' \<and> k \<noteq> ''constructor'' \<and> k \<noteq> ''prototype'')"

text \<open>
  \<open>check_item\<close> is the body of the \<open>forEach\<close> callback, the same in the four category
  blocks; \<open>or_zero\<close> is \<open>lastNotified.get(item.name) || 0\<close>.  The line is pushed, the clock
  is read for the argument, and then \<open>lastNotified.set\<close> stores the reading or throws.
\<close>

definition check_item :: "(nat \<Rightarrow> int) \<Rightarrow> string list \<Rightarrow> item \<Rightarrow> acc \<Rightarrow> acc result" where
  "check_item clk watch it a =
     (case a of (inStockItems, ledg, k) \<Rightarrow>
        if name it \<in> set watch \<and> quantity it > 0 then
          (let lastSent = or_zero (ledg (name it))
           in if clk k - lastSent > DAY
              then (if valid_key (name it)
                    then Inr (inStockItems @ [item_line it], ledg(name it \<mapsto> clk (Suc k)),
                              Suc (Suc k))
                    else Inl (MapKeyError, Suc (Suc k)))
              else Inr (inStockItems, ledg, Suc k))
        else Inr a)"

text \<open>\<open>Array.prototype.forEach\<close> with a callback that may throw.\<close>

fun forEach :: "('a \<Rightarrow> 'b \<Rightarrow> 'e + 'b) \<Rightarrow> 'a list \<Rightarrow> 'b \<Rightarrow> 'e + 'b" where
  "forEach f [] a = Inr a"
| "forEach f (x # xs) a = (case f x a of Inl err \<Rightarrow> Inl err | Inr a' \<Rightarrow> forEach f xs a')"

text \<open>
  One category block: \<open>user.c && user.c.length > 0 && stockData.c'?.items\<close>.  Mongoose
  gives every array field a value, so only the length is tested; \<open>stockData.c'\<close> throws a
  TypeError when \<open>stockData\<close> is \<open>null\<close>, and \<open>items.forEach\<close> throws one when \<open>items\<close> is
  not an array; both are evaluated only for a non-empty watchlist.
\<close>

definition check_category ::
    "(nat \<Rightarrow> int) \<Rightarrow> string list \<Rightarrow> stock option \<Rightarrow> string \<Rightarrow> acc \<Rightarrow> acc result" where
  "check_category clk watch sd c a =
     (if watch \<noteq> [] then
        (case sd of
           None \<Rightarrow> Inl (TypeError, snd (snd a))
         | Some s \<Rightarrow>
             (case s c of
                None \<Rightarrow> Inr a
              | Some NotAnArray \<Rightarrow> Inl (TypeError, snd (snd a))
              | Some (ItemArray its) \<Rightarrow> forEach (check_item clk watch) its a))
      else Inr a)"

definition and_then :: "'e + 'a \<Rightarrow> ('a \<Rightarrow> 'e + 'b) \<Rightarrow> 'e + 'b" where
  "and_then r f = (case r of Inl err \<Rightarrow> Inl err | Inr a \<Rightarrow> f a)"

text \<open>
  The four blocks in the order of the source, from a given buffer and ledger;
  \<open>match_user\<close> starts them as the loop body does, with \<open>inStockItems = []\<close> and the
  document's \<open>lastNotified\<close>.
\<close>

definition match_from :: "(nat \<Rightarrow> int) \<Rightarrow> stock option \<Rightarrow> user \<Rightarrow> acc \<Rightarrow> acc result" where
  "match_from clk sd u a =
     and_then (check_category clk (seeds u) sd ''seed'' a) (\<lambda>a1.
     and_then (check_category clk (gear u) sd ''gear'' a1) (\<lambda>a2.
     and_then (check_category clk (eggs u) sd ''egg'' a2) (\<lambda>a3.
     check_category clk (travelingmerchant u) sd ''travelingmerchant'' a3)))"

definition match_user :: "(nat \<Rightarrow> int) \<Rightarrow> stock option \<Rightarrow> user \<Rightarrow> nat \<Rightarrow> acc result" where
  "match_user clk sd u k = match_from clk sd u ([], lastNotified u, k)"

definition getManilaTime :: "env \<Rightarrow> state \<Rightarrow> string \<times> state" where
  "getManilaTime e st = (manila e (now e (reads st)), st\<lparr>reads := Suc (reads st)\<rparr>)"

fun join :: "string \<Rightarrow> string list \<Rightarrow> string" where
  "join sep [] = []"
| "join sep [x] = x"
| "join sep (x # y # ys) = x @ sep @ join sep (y # ys)"

definition notifyMsg :: "string \<Rightarrow> string \<Rightarrow> string list \<Rightarrow> string" where
  "notifyMsg nm timestamp inStockItems =
     [CHR 0xF0, CHR 0x9F, CHR 0x93, CHR 0xA6] @ '' Alert for '' @ nm @ '' at '' @ timestamp @
     [CHR '':'', CHR 0x0A, CHR 0x0A] @ ''Your preferred items are in stock:'' @ [CHR 0x0A] @
     join [CHR 0x0A] inStockItems @ [CHR 0x0A, CHR 0x0A] @
     ''Check GAG DROP WATCH for more details!''"

text \<open>
  The collection: \<open>User.find({})\<close> returns the documents, \<open>User.findOne({uid})\<close> the first
  document with that \<open>uid\<close>, and \<open>User.updateOne({uid}, {lastNotified})\<close> sets the field of
  that document.  \<open>find\<close> and \<open>updateOne\<close> are awaited in the run and may reject.
\<close>

definition findOne :: "string \<Rightarrow> user list \<Rightarrow> user option" where
  "findOne x db = find (\<lambda>d. uid d = x) db"

fun updateOne :: "string \<Rightarrow> ledger \<Rightarrow> user list \<Rightarrow> user list" where
  "updateOne x l [] = []"
| "updateOne x l (d # ds) = (if uid d = x then d\<lparr>lastNotified := l\<rparr> # ds else d # updateOne x l ds)"

definition User_find :: "env \<Rightarrow> state \<Rightarrow> (error + user list) \<times> state" where
  "User_find e st =
     (let failed = db_fails e (awaits st); st' = await e st
      in (if failed then Inl MongoError else Inr (users st'), st'))"

definition User_updateOne :: "env \<Rightarrow> string \<Rightarrow> ledger \<Rightarrow> state \<Rightarrow> error option \<times> state" where
  "User_updateOne e x l st =
     (let failed = db_fails e (awaits st); st' = await e st
      in if failed then (Some MongoError, st')
         else (None, st'\<lparr>users := updateOne x l (users st')\<rparr>))"

text \<open>
  The body of \<open>for (const user of users)\<close>; \<open>Some err\<close> is an exception that leaves the
  loop.  \<open>cron_job\<close> is the whole callback: its \<open>try\<close> encloses \<open>User.find\<close> and the loop,
  and its \<open>catch\<close> only logs.
\<close>

definition process_user :: "env \<Rightarrow> user \<Rightarrow> state \<Rightarrow> error option \<times> state" where
  "process_user e u st =
     (case match_user (now e) (stockData st) u (reads st) of
        Inl (err, k) \<Rightarrow> (Some err, st\<lparr>reads := k\<rparr>)
      | Inr (inStockItems, ledg, k) \<Rightarrow>
          if inStockItems \<noteq> [] then
            (case getManilaTime e (st\<lparr>reads := k\<rparr>) of
               (timestamp, st1) \<Rightarrow>
                 (case sendMessengerMessage e (uid u)
                         (Text (notifyMsg (uname u) timestamp inStockItems)) st1 of
                    (Some err, st2) \<Rightarrow> (Some err, st2)
                  | (None, st2) \<Rightarrow> User_updateOne e (uid u) ledg st2))
          else (None, st\<lparr>reads := k\<rparr>))"

fun for_users :: "env \<Rightarrow> user list \<Rightarrow> state \<Rightarrow> error option \<times> state" where
  "for_users e [] st = (None, st)"
| "for_users e (u # us) st =
     (case process_user e u st of
        (Some err, st') \<Rightarrow> (Some err, st')
      | (None, st') \<Rightarrow> for_users e us st')"

definition cron_job :: "env \<Rightarrow> state \<Rightarrow> state" where
  "cron_job e st =
     (if stockData st = None then st
      else
        (case User_find e st of
           (Inl err, st') \<Rightarrow> st'
         | (Inr us, st') \<Rightarrow> snd (for_users e us st')))"

section \<open>The matching run as the specification words it\<close>

text \<open>
  The specification has the run read the Snapshot Store once, at its start, and evaluate
  every check against that value.  \<open>spec_cron_job\<close> does so: it passes the snapshot it
  read to the loop, which never looks at \<open>stockData\<close> again.  Everything else is as in
  \<open>cron_job\<close>.
\<close>

definition spec_process_user :: "env \<Rightarrow> stock \<Rightarrow> user \<Rightarrow> state \<Rightarrow> error option \<times> state" where
  "spec_process_user e snapshot u st =
     (case match_user (now e) (Some snapshot) u (reads st) of
        Inl (err, k) \<Rightarrow> (Some err, st\<lparr>reads := k\<rparr>)
      | Inr (inStockItems, ledg, k) \<Rightarrow>
          if inStockItems \<noteq> [] then
            (case getManilaTime e (st\<lparr>reads := k\<rparr>) of
               (timestamp, st1) \<Rightarrow>
                 (case sendMessengerMessage e (uid u)
                         (Text (notifyMsg (uname u) timestamp inStockItems)) st1 of
                    (Some err, st2) \<Rightarrow> (Some err, st2)
                  | (None, st2) \<Rightarrow> User_updateOne e (uid u) ledg st2))
          else (None, st\<lparr>reads := k\<rparr>))"

fun spec_for_users :: "env \<Rightarrow> stock \<Rightarrow> user list \<Rightarrow> state \<Rightarrow> error option \<times> state" where
  "spec_for_users e snapshot [] st = (None, st)"
| "spec_for_users e snapshot (u # us) st =
     (case spec_process_user e snapshot u st of
        (Some err, st') \<Rightarrow> (Some err, st')
      | (None, st') \<Rightarrow> spec_for_users e snapshot us st')"

definition spec_cron_job :: "env \<Rightarrow> state \<Rightarrow> state" where
  "spec_cron_job e st =
     (case stockData st of
        None \<Rightarrow> st
      | Some snapshot \<Rightarrow>
          (case User_find e st of
             (Inl err, st') \<Rightarrow> st'
           | (Inr us, st') \<Rightarrow> snd (spec_for_users e snapshot us st')))"

section \<open>The items a user is notified about\<close>

text \<open>
  The buffer of the run holds rendered lines.  To speak about the items behind the
  lines, \<open>trace_item\<close> runs \<open>check_item\<close> on an empty buffer and records the item
  itself when a line was pushed; \<open>trace_category\<close> and \<open>trace_user\<close> repeat the
  structure of \<open>check_category\<close> and \<open>match_user\<close>.  The lemma \<open>match_user_render\<close>
  below shows that the run's buffer is the rendering of the trace.
\<close>

type_synonym tacc = "item list \<times> ledger \<times> nat"




definition render :: "tacc \<Rightarrow> acc" where
  "render a = (case a of (ns, ledg, k) \<Rightarrow> (map item_line ns, ledg, k))"



text \<open>
  The category blocks by the key they read in the feed's data, in the order of the source,
  and the watchlist that each block tests.  To speak about the moment at which the
  matching reaches one item of a category, \<open>before_item\<close> is the data cut off before that
  item (the category ends there and the later categories are missing) and \<open>after_item\<close>
  is the data that follows the item (the category starts behind it and the earlier
  categories are missing); a block whose category is missing does nothing.
\<close>

definition categories :: "string list" where
  "categories = [''seed'', ''gear'', ''egg'', ''travelingmerchant'']"

definition watchlist :: "user \<Rightarrow> string \<Rightarrow> string list" where
  "watchlist u c =
     (if c = ''seed'' then seeds u else if c = ''gear'' then gear u
      else if c = ''egg'' then eggs u
      else if c = ''travelingmerchant'' then travelingmerchant u else [])"

definition block_index :: "string \<Rightarrow> nat" where
  "block_index c = length (takeWhile (\<lambda>x. x \<noteq> c) categories)"

definition before_item :: "stock \<Rightarrow> string \<Rightarrow> item list \<Rightarrow> stock" where
  "before_item s c pre =
     (\<lambda>c'. if c' = c then Some (ItemArray pre)
           else if block_index c' < block_index c then s c' else None)"

definition after_item :: "stock \<Rightarrow> string \<Rightarrow> item list \<Rightarrow> stock" where
  "after_item s c post =
     (\<lambda>c'. if c' = c then Some (ItemArray post)
           else if block_index c < block_index c' then s c' else None)"

section \<open>Auxiliary notions and example values\<close>

text \<open>
  Two states have the same posts when they differ at most in the delivery flags of the
  recorded \<open>axios.post\<close> calls.
\<close>

definition same_posts :: "state \<Rightarrow> state \<Rightarrow> bool" where
  "same_posts st st' =
     (\<exists>ob. st' = st\<lparr>outbox := ob\<rparr> \<and>
           map (\<lambda>(to, m, ok). (to, m)) ob = map (\<lambda>(to, m, ok). (to, m)) (outbox st))"





definition ledger_le :: "ledger \<Rightarrow> ledger \<Rightarrow> bool" where
  "ledger_le l l' = (\<forall>n v. l n = Some v \<longrightarrow> (\<exists>v'. l' n = Some v' \<and> v \<le> v'))"

definition doc_le :: "user \<Rightarrow> user \<Rightarrow> bool" where
  "doc_le d d' = (uid d' = uid d \<and> ledger_le (lastNotified d) (lastNotified d'))"

text \<open>
  The state after the module has been loaded (\<open>connectWebSocket()\<close> has been called
  once) with a given collection, and the values used in the examples.
\<close>

definition boot :: "user list \<Rightarrow> state" where
  "boot us = \<lparr>stockData = None, keepAliveInterval = None, intervals = [], timeouts = [],
     handles = 0, sockets = 1, unregisteredMessageCache = Map.empty, users = us,
     outbox = [], reads = 0, awaits = 0\<rparr>"

definition carrot :: item where
  "carrot = \<lparr>name = ''Carrot'', quantity = 50, emoji = ''C''\<rparr>"

definition shop :: stock where
  "shop = [''seed'' \<mapsto> ItemArray [carrot]]"

definition alice :: user where
  "alice = \<lparr>uid = ''1001'', uname = ''Alice'', seeds = [''Carrot''], gear = [], eggs = [],
     travelingmerchant = [], lastNotified = Map.empty\<rparr>"

definition bob :: user where
  "bob = \<lparr>uid = ''1002'', uname = ''Bob'', seeds = [''Carrot''], gear = [], eggs = [],
     travelingmerchant = [], lastNotified = Map.empty\<rparr>"

definition clock0 :: "nat \<Rightarrow> int" where
  "clock0 k = 1700000000000 + int k"

definition clock_epoch :: "nat \<Rightarrow> int" where
  "clock_epoch k = 1000"

definition env0 :: env where
  "env0 = \<lparr>now = clock0, manila = (\<lambda>t. ''T''), feed = (\<lambda>k. []), post_fails = (\<lambda>k. False),
     db_fails = (\<lambda>k. False)\<rparr>"

definition env_post_down :: env where
  "env_post_down = env0\<lparr>post_fails := (\<lambda>k. True)\<rparr>"

definition tomato :: item where
  "tomato = \<lparr>name = ''Tomato'', quantity = 7, emoji = ''T''\<rparr>"

definition shop_tomato :: stock where
  "shop_tomato = [''seed'' \<mapsto> ItemArray [tomato]]"

definition env_restock :: env where
  "env_restock = env0\<lparr>feed := (\<lambda>k. if k = 1 then [Message (Payload ''success'' (Some shop_tomato))] else [])\<rparr>"

definition env_late_restock :: env where
  "env_late_restock = env0\<lparr>feed := (\<lambda>k. if k = 5 then [Message (Payload ''success'' (Some shop_tomato))] else [])\<rparr>"

definition hoe :: item where
  "hoe = \<lparr>name = ''Hoe'', quantity = 3, emoji = ''H''\<rparr>"

definition dave :: user where
  "dave = \<lparr>uid = ''1004'', uname = ''Dave'', seeds = [], gear = [''Hoe''], eggs = [],
     travelingmerchant = [], lastNotified = Map.empty\<rparr>"

definition bad_seed :: "user list \<Rightarrow> state" where
  "bad_seed us = (boot us)\<lparr>stockData := Some [''seed'' \<mapsto> NotAnArray, ''gear'' \<mapsto> ItemArray [hoe]]\<rparr>"

definition env_db_down :: env where
  "env_db_down = env0\<lparr>db_fails := (\<lambda>k. k = 2)\<rparr>"

definition two_users :: state where
  "two_users = (boot [alice, bob])\<lparr>stockData := Some shop\<rparr>"



definition carol :: user where
  "carol = \<lparr>uid = ''1003'', uname = ''Carol'', seeds = [''Carrot''], gear = [''Carrot''], eggs = [],
     travelingmerchant = [], lastNotified = [''Carrot'' \<mapsto> 1600000000000]\<rparr>"

definition shop_twice :: stock where
  "shop_twice = [''seed'' \<mapsto> ItemArray [carrot, carrot], ''gear'' \<mapsto> ItemArray [carrot]]"


definition shop_both :: stock where
  "shop_both = [''seed'' \<mapsto> ItemArray [carrot], ''gear'' \<mapsto> ItemArray [hoe]]"

definition three_users :: state where
  "three_users = (boot [dave, alice, bob])\<lparr>stockData := Some shop_both\<rparr>"

definition env_update_rejected :: env where
  "env_update_rejected = env0\<lparr>db_fails := (\<lambda>k. k = 4)\<rparr>"

definition env_first_post_fails :: env where
  "env_first_post_fails = env0\<lparr>post_fails := (\<lambda>k. k = 1)\<rparr>"

definition dotted :: item where
  "dotted = \<lparr>name = ''Lv.2 Sprinkler'', quantity = 4, emoji = ''S''\<rparr>"

definition erin :: user where
  "erin = \<lparr>uid = ''1005'', uname = ''Erin'', seeds = [], gear = [''Lv.2 Sprinkler''], eggs = [],
     travelingmerchant = [], lastNotified = Map.empty\<rparr>"

definition shop_dotted :: stock where
  "shop_dotted = [''seed'' \<mapsto> ItemArray [carrot], ''gear'' \<mapsto> ItemArray [dotted]]"

definition dotted_shop :: "user list \<Rightarrow> state" where
  "dotted_shop us = (boot us)\<lparr>stockData := Some shop_dotted\<rparr>"

definition old_carol :: state where
  "old_carol = (boot [carol, alice])\<lparr>stockData := Some shop_twice\<rparr>"

section \<open>Properties\<close>

subsection \<open>Suspension and the feed handlers\<close>

lemma handle_frame:
  "users (handle ev st) = users st" "outbox (handle ev st) = outbox st"
  "reads (handle ev st) = reads st" "awaits (handle ev st) = awaits st"
  "unregisteredMessageCache (handle ev st) = unregisteredMessageCache st"
  by (cases ev; simp add: on_open_def setInterval_def on_message_def on_error_def on_close_def
        setTimeout_def clearInterval_def split: ws_data.splits option.splits)+

lemma fold_handle_frame:
  "users (fold handle evs st) = users st" "outbox (fold handle evs st) = outbox st"
  "reads (fold handle evs st) = reads st" "awaits (fold handle evs st) = awaits st"
  "unregisteredMessageCache (fold handle evs st) = unregisteredMessageCache st"
  by (induction evs arbitrary: st; simp add: handle_frame)+

lemma await_frame [simp]:
  "users (await e st) = users st" "outbox (await e st) = outbox st"
  "reads (await e st) = reads st" "awaits (await e st) = Suc (awaits st)"
  "unregisteredMessageCache (await e st) = unregisteredMessageCache st"
  by (simp_all add: await_def fold_handle_frame)

lemma handle_outbox: "handle ev (st\<lparr>outbox := ob\<rparr>) = (handle ev st)\<lparr>outbox := ob\<rparr>"
  by (cases ev; simp add: on_open_def setInterval_def on_message_def on_error_def on_close_def
        setTimeout_def clearInterval_def split: ws_data.splits option.splits)

lemma fold_handle_outbox:
  "fold handle evs (st\<lparr>outbox := ob\<rparr>) = (fold handle evs st)\<lparr>outbox := ob\<rparr>"
  by (induction evs arbitrary: st) (simp_all add: handle_outbox)

lemma await_outbox: "await e (st\<lparr>outbox := ob\<rparr>) = (await e st)\<lparr>outbox := ob\<rparr>"
  by (simp add: await_def fold_handle_outbox)

lemma await_post_fails [simp]: "await (e\<lparr>post_fails := f\<rparr>) st = await e st"
  by (simp add: await_def)

lemma send_eq:
  "sendMessengerMessage e to m st =
     (None, (await e st)\<lparr>outbox := outbox st @ [(to, m, \<not> post_fails e (awaits st))]\<rparr>)"
  by (simp add: sendMessengerMessage_def axios_post_def Let_def split: prod.splits option.splits)

text \<open>
  Claim C5, as amended.  The \<open>close\<close> handler stops the keep-alive timer (when the only
  running interval timers are the one held in \<open>keepAliveInterval\<close>, none is left), sets
  \<open>stockData\<close> to \<open>null\<close> and schedules exactly one \<open>connectWebSocket\<close> after 3000 ms.
  The \<open>error\<close> handler only sets \<open>stockData\<close> to \<open>null\<close>: it leaves the timers and the
  pending timeouts as they are, so that an \<open>error\<close> followed by its \<open>close\<close> schedules
  one reconnect, not two.
\<close>

theorem close_stops_timer_and_schedules_reconnect:
  assumes "set (intervals st) \<subseteq> set_option (keepAliveInterval st)"
  shows "intervals (on_close st) = [] \<and> stockData (on_close st) = None \<and>
         timeouts (on_close st) = timeouts st @ [(3000, ConnectWebSocket)] \<and>
         stockData (on_error st) = None \<and> intervals (on_error st) = intervals st \<and>
         keepAliveInterval (on_error st) = keepAliveInterval st \<and>
         timeouts (on_error st) = timeouts st \<and>
         intervals (on_close (on_error st)) = [] \<and>
         timeouts (on_close (on_error st)) = timeouts st @ [(3000, ConnectWebSocket)]"
  using assms
  by (cases "keepAliveInterval st")
     (auto simp: on_close_def on_error_def setTimeout_def clearInterval_def
       removeAll_filter_not_eq filter_empty_conv)

theorem close_stops_timer_and_schedules_reconnect_witness:
  "set (intervals (on_open (boot []))) \<subseteq> set_option (keepAliveInterval (on_open (boot []))) \<and>
   intervals (on_open (boot [])) = [0] \<and>
   intervals (on_close (on_open (boot []))) = [] \<and>
   stockData (on_close (on_open (boot []))) = None \<and>
   timeouts (on_close (on_open (boot []))) = [(3000, ConnectWebSocket)] \<and>
   timeouts (on_close (on_error (on_open (boot [])))) = [(3000, ConnectWebSocket)]"
  using close_stops_timer_and_schedules_reconnect [of "on_open (boot [])"]
  by (simp add: on_open_def setInterval_def boot_def)

text \<open>
  Claim C5 as stated fails for the \<open>error\<close> event: after \<open>open\<close> and then \<open>error\<close> the
  keep-alive timer with handle 0 is still running and no reconnect is scheduled.
\<close>

theorem error_event_keeps_timer_counterexample:
  "intervals (on_error (on_open (boot []))) = [0] \<and>
   keepAliveInterval (on_error (on_open (boot []))) = Some 0 \<and>
   timeouts (on_error (on_open (boot []))) = []"
  by (simp add: on_error_def on_open_def setInterval_def boot_def)

subsection \<open>The decision for one item\<close>

lemma format_50: "formatValue 50 = ''x50''"
  by code_simp

lemma carrot_line: "item_line carrot = ''C Carrot: x50''"
  by (simp add: item_line_def carrot_def format_50)

lemma and_then_Inr [simp]: "and_then (Inr a) f = f a"
  by (simp add: and_then_def)

lemma and_then_Inl [simp]: "and_then (Inl x) f = Inl x"
  by (simp add: and_then_def)

lemma and_then_assoc: "and_then (and_then r f) g = and_then r (\<lambda>a. and_then (f a) g)"
  by (cases r) simp_all

lemma and_then_return [simp]: "and_then r Inr = r"
  by (cases r) simp_all

lemma and_then_eq_Inr:
  "and_then r f = Inr b \<longleftrightarrow> (\<exists>a. r = Inr a \<and> f a = Inr b)"
  by (cases r) simp_all

lemma forEach_append: "forEach f (xs @ ys) a = and_then (forEach f xs a) (forEach f ys)"
  by (induction xs arbitrary: a) (simp_all split: sum.splits)

lemma check_item_unwatched [simp]: "check_item clk [] it a = Inr a"
  by (cases a) (simp add: check_item_def)

lemma check_category_missing:
  "s c = None \<Longrightarrow> check_category clk w (Some s) c a = Inr a"
  by (simp add: check_category_def)

lemma check_category_same:
  "s c = s' c \<Longrightarrow> check_category clk w (Some s) c = check_category clk w (Some s') c"
  by (simp add: check_category_def fun_eq_iff)

lemma check_category_split:
  assumes "s c = Some (ItemArray (pre @ it # post))"
    and "sb c = Some (ItemArray pre)" and "sa c = Some (ItemArray post)"
  shows "check_category clk w (Some s) c a =
           and_then (check_category clk w (Some sb) c a)
             (\<lambda>b. and_then (check_item clk w it b) (check_category clk w (Some sa) c))"
proof (cases "w = []")
  case True
  then show ?thesis by (simp add: check_category_def)
next
  case False
  have "forEach (check_item clk w) (pre @ it # post) a =
          and_then (forEach (check_item clk w) pre a)
            (\<lambda>b. and_then (check_item clk w it b) (forEach (check_item clk w) post))"
    by (simp add: forEach_append and_then_def split: sum.splits)
  moreover have "check_category clk w (Some sa) c = forEach (check_item clk w) post"
    using False assms by (simp add: check_category_def fun_eq_iff)
  ultimately show ?thesis using False assms by (simp add: check_category_def)
qed

lemma check_item_eq:
  "check_item clk w it (buf, ledg, j) =
     (if name it \<in> set w \<and> 0 < quantity it then
        if DAY < clk j - (case ledg (name it) of None \<Rightarrow> 0 | Some t \<Rightarrow> t) then
          if valid_key (name it)
          then Inr (buf @ [item_line it], ledg(name it \<mapsto> clk (Suc j)), Suc (Suc j))
          else Inl (MapKeyError, Suc (Suc j))
        else Inr (buf, ledg, Suc j)
      else Inr (buf, ledg, j))"
  by (simp add: check_item_def or_zero_def Let_def split: option.splits)

lemma block_index_simps [simp]:
  "block_index ''seed'' = 0" "block_index ''gear'' = 1" "block_index ''egg'' = 2"
  "block_index ''travelingmerchant'' = 3"
  by (simp_all add: block_index_def categories_def)

lemma match_from_split:
  assumes c: "c \<in> set categories"
    and s: "s c = Some (ItemArray (pre @ it # post))"
  shows "match_from clk (Some s) u a =
           and_then (match_from clk (Some (before_item s c pre)) u a)
             (\<lambda>b. and_then (check_item clk (watchlist u c) it b)
                     (match_from clk (Some (after_item s c post)) u))"
proof -
  let ?b = "before_item s c pre" and ?a = "after_item s c post"
  have "?b c = Some (ItemArray pre)" "?a c = Some (ItemArray post)"
    by (simp_all add: before_item_def after_item_def)
  note at = check_category_split [where s = s and c = c and pre = pre and it = it
      and post = post and sb = ?b and sa = ?a and clk = clk, OF s this]
  have split: "check_category clk w (Some s) c =
      (\<lambda>a. and_then (check_category clk w (Some ?b) c a)
             (\<lambda>b. and_then (check_item clk w it b) (check_category clk w (Some ?a) c)))" for w
    by (rule ext) (rule at)
  from c consider "c = ''seed''" | "c = ''gear''" | "c = ''egg''" | "c = ''travelingmerchant''"
    by (auto simp: categories_def)
  then show ?thesis
  proof cases
    case 1
    have b: "?b ''seed'' = Some (ItemArray pre)" "?b ''gear'' = None" "?b ''egg'' = None"
      "?b ''travelingmerchant'' = None"
      and a: "?a ''seed'' = Some (ItemArray post)" "?a ''gear'' = s ''gear''" "?a ''egg'' = s ''egg''"
      "?a ''travelingmerchant'' = s ''travelingmerchant''"
      by (simp_all add: before_item_def after_item_def 1)
    have w: "watchlist u c = seeds u" by (simp add: watchlist_def 1)
    have k: "check_category clk x (Some ?a) ''gear'' = check_category clk x (Some s) ''gear''"
      "check_category clk x (Some ?a) ''egg'' = check_category clk x (Some s) ''egg''"
      "check_category clk x (Some ?a) ''travelingmerchant'' =
         check_category clk x (Some s) ''travelingmerchant''" for x
      by (rule check_category_same, simp add: a)+
    show ?thesis
      unfolding match_from_def w k
      by (simp add: 1 split [unfolded 1] b [unfolded 1] a [unfolded 1] check_category_missing b
            and_then_assoc)
  next
    case 2
    have b: "?b ''seed'' = s ''seed''" "?b ''gear'' = Some (ItemArray pre)" "?b ''egg'' = None"
      "?b ''travelingmerchant'' = None"
      and a: "?a ''seed'' = None" "?a ''gear'' = Some (ItemArray post)" "?a ''egg'' = s ''egg''"
      "?a ''travelingmerchant'' = s ''travelingmerchant''"
      by (simp_all add: before_item_def after_item_def 2)
    have w: "watchlist u c = gear u" by (simp add: watchlist_def 2)
    have k: "check_category clk x (Some ?b) ''seed'' = check_category clk x (Some s) ''seed''"
      "check_category clk x (Some ?a) ''egg'' = check_category clk x (Some s) ''egg''"
      "check_category clk x (Some ?a) ''travelingmerchant'' =
         check_category clk x (Some s) ''travelingmerchant''" for x
      by (rule check_category_same, simp add: a b)+
    show ?thesis
      unfolding match_from_def w k
      by (simp add: 2 split [unfolded 2] b [unfolded 2] a [unfolded 2] check_category_missing a b
            and_then_assoc)
  next
    case 3
    have b: "?b ''seed'' = s ''seed''" "?b ''gear'' = s ''gear''" "?b ''egg'' = Some (ItemArray pre)"
      "?b ''travelingmerchant'' = None"
      and a: "?a ''seed'' = None" "?a ''gear'' = None" "?a ''egg'' = Some (ItemArray post)"
      "?a ''travelingmerchant'' = s ''travelingmerchant''"
      by (simp_all add: before_item_def after_item_def 3)
    have w: "watchlist u c = eggs u" by (simp add: watchlist_def 3)
    have k: "check_category clk x (Some ?b) ''seed'' = check_category clk x (Some s) ''seed''"
      "check_category clk x (Some ?b) ''gear'' = check_category clk x (Some s) ''gear''"
      "check_category clk x (Some ?a) ''travelingmerchant'' =
         check_category clk x (Some s) ''travelingmerchant''" for x
      by (rule check_category_same, simp add: a b)+
    show ?thesis
      unfolding match_from_def w k
      by (simp add: 3 split [unfolded 3] b [unfolded 3] a [unfolded 3] check_category_missing a b
            and_then_assoc)
  next
    case 4
    have b: "?b ''seed'' = s ''seed''" "?b ''gear'' = s ''gear''" "?b ''egg'' = s ''egg''"
      "?b ''travelingmerchant'' = Some (ItemArray pre)"
      and a: "?a ''seed'' = None" "?a ''gear'' = None" "?a ''egg'' = None"
      "?a ''travelingmerchant'' = Some (ItemArray post)"
      by (simp_all add: before_item_def after_item_def 4)
    have w: "watchlist u c = travelingmerchant u" by (simp add: watchlist_def 4)
    have k: "check_category clk x (Some ?b) ''seed'' = check_category clk x (Some s) ''seed''"
      "check_category clk x (Some ?b) ''gear'' = check_category clk x (Some s) ''gear''"
      "check_category clk x (Some ?b) ''egg'' = check_category clk x (Some s) ''egg''" for x
      by (rule check_category_same, simp add: a b)+
    show ?thesis
      unfolding match_from_def w k
      by (simp add: 4 split [unfolded 4] b [unfolded 4] a [unfolded 4] check_category_missing a b
            and_then_assoc)
  qed
qed

text \<open>
  Claim C1 as stated fails.  For a user who watches only the carrot, a tomato with a
  positive quantity and no ledger entry is not notified: the callback first tests the
  watchlist of the category.  For a user who watches an item whose name contains a dot,
  the line is pushed but the ledger cannot be marked: \<open>lastNotified.set\<close> throws, and the
  matching ends with that error.  (The claim also fails, for a watched item without an
  entry, on a clock that reads less than 24 hours: the missing entry is read as 0.)
\<close>

theorem unwatched_item_counterexample:
  "0 < quantity tomato \<and> lastNotified alice (name tomato) = None \<and>
   match_user clock0 (Some shop_tomato) alice 0 = Inr ([], Map.empty, 0) \<and>
   0 < quantity dotted \<and> lastNotified erin (name dotted) = None \<and>
   name dotted \<in> set (gear erin) \<and>
   match_user clock0 (Some shop_dotted) erin 0 = Inl (MapKeyError, 2) \<and>
   match_user clock_epoch (Some shop) alice 0 = Inr ([], Map.empty, 1)"
  by (simp add: match_user_def match_from_def check_category_def check_item_def or_zero_def
        alice_def erin_def tomato_def dotted_def carrot_def shop_def shop_tomato_def
        shop_dotted_def clock0_def clock_epoch_def DAY_def valid_key_def)

text \<open>
  Claim C1, as amended.  Let the item \<open>it\<close> stand in category \<open>c\<close> of the feed's data, and
  let the matching of user \<open>u\<close> reach it with the buffer \<open>buf\<close>, the ledger \<open>ledg\<close> and the
  clock at its reading \<open>j\<close>.  Then the whole matching of \<open>u\<close> is: the matching up to the
  item, which has given this state, the decision for \<open>it\<close>, and the matching of what
  follows \<open>it\<close>.  For a name that the ledger's map accepts as a key, the decision is to
  notify, that is to append the line and to set the entry of the name to the clock's next
  reading, exactly when the name is on the user's watchlist for \<open>c\<close>, the quantity is
  positive and the clock exceeds by more than 24 hours the entry of the name, taken as 0
  when there is none; in every other case the buffer and the whole ledger are unchanged.
  (For a name that the map rejects the same three conditions decide, and when they hold
  the matching ends with the map's error.)
\<close>

theorem notify_decision:
  assumes "c \<in> set categories"
    and "s c = Some (ItemArray (pre @ it # post))"
    and "match_user clk (Some (before_item s c pre)) u k = Inr (buf, ledg, j)"
  shows "match_user clk (Some s) u k =
           and_then
             (if name it \<in> set (watchlist u c) \<and> 0 < quantity it then
                if DAY < clk j - (case ledg (name it) of None \<Rightarrow> 0 | Some t \<Rightarrow> t) then
                  if valid_key (name it)
                  then Inr (buf @ [item_line it], ledg(name it \<mapsto> clk (Suc j)), Suc (Suc j))
                  else Inl (MapKeyError, Suc (Suc j))
                else Inr (buf, ledg, Suc j)
              else Inr (buf, ledg, j))
             (match_from clk (Some (after_item s c post)) u)"
proof -
  have "match_user clk (Some s) u k =
          and_then (check_item clk (watchlist u c) it (buf, ledg, j))
            (match_from clk (Some (after_item s c post)) u)"
    using assms(3) match_from_split [where s = s and c = c and pre = pre and it = it
        and post = post and clk = clk and u = u and a = "([], lastNotified u, k)", OF assms(1,2)]
    by (simp add: match_user_def)
  then show ?thesis by (simp only: check_item_eq)
qed

lemma hoe_line: "item_line hoe = ''H Hoe: x3''"
  by (simp add: item_line_def hoe_def) code_simp

theorem notify_decision_witness:
  "''gear'' \<in> set categories \<and> shop_both ''gear'' = Some (ItemArray ([] @ hoe # [])) \<and>
   match_user clock0 (Some (before_item shop_both ''gear'' [])) dave 0 = Inr ([], Map.empty, 0) \<and>
   name hoe \<in> set (watchlist dave ''gear'') \<and> 0 < quantity hoe \<and> DAY < clock0 0 - 0 \<and>
   valid_key (name hoe) \<and>
   match_user clock0 (Some shop_both) dave 0 =
     Inr ([''H Hoe: x3''], [''Hoe'' \<mapsto> 1700000000001], 2) \<and>
   shop_twice ''gear'' = Some (ItemArray ([] @ carrot # [])) \<and>
   match_user clock0 (Some (before_item shop_twice ''gear'' [])) carol 0 =
     Inr ([''C Carrot: x50''], [''Carrot'' \<mapsto> 1700000000001], 3) \<and>
   name carrot \<in> set (watchlist carol ''gear'') \<and> 0 < quantity carrot \<and>
   \<not> DAY < clock0 3 - 1700000000001 \<and>
   match_user clock0 (Some shop_twice) carol 0 =
     Inr ([''C Carrot: x50''], [''Carrot'' \<mapsto> 1700000000001], 4) \<and>
   shop_dotted ''gear'' = Some (ItemArray ([] @ dotted # [])) \<and>
   match_user clock0 (Some (before_item shop_dotted ''gear'' [])) erin 0 = Inr ([], Map.empty, 0) \<and>
   name dotted \<in> set (watchlist erin ''gear'') \<and> 0 < quantity dotted \<and> DAY < clock0 0 - 0 \<and>
   \<not> valid_key (name dotted) \<and>
   match_user clock0 (Some shop_dotted) erin 0 = Inl (MapKeyError, 2)"
proof -
  have c: "''gear'' \<in> set categories"
    by (simp add: categories_def)
  have d1: "shop_both ''gear'' = Some (ItemArray ([] @ hoe # []))"
    by (simp add: shop_both_def)
  have d2: "match_user clock0 (Some (before_item shop_both ''gear'' [])) dave 0 =
      Inr ([], Map.empty, 0)"
    by (simp add: match_user_def match_from_def check_category_def before_item_def dave_def)
  have d3: "name hoe \<in> set (watchlist dave ''gear'')" "0 < quantity hoe" "DAY < clock0 0 - 0"
    "valid_key (name hoe)"
    by (simp_all add: hoe_def watchlist_def dave_def DAY_def clock0_def valid_key_def)
  have d4: "match_from clock0 (Some (after_item shop_both ''gear'' [])) dave a = Inr a" for a
    by (simp add: match_from_def check_category_def after_item_def dave_def)
  have c1: "shop_twice ''gear'' = Some (ItemArray ([] @ carrot # []))"
    by (simp add: shop_twice_def)
  have c2: "match_user clock0 (Some (before_item shop_twice ''gear'' [])) carol 0 =
      Inr ([''C Carrot: x50''], [''Carrot'' \<mapsto> 1700000000001], 3)"
    by (simp add: match_user_def match_from_def check_category_def before_item_def carol_def
          shop_twice_def check_item_def or_zero_def DAY_def clock0_def carrot_line valid_key_def)
       (simp add: carrot_def)
  have c3: "name carrot \<in> set (watchlist carol ''gear'')" "0 < quantity carrot"
    "\<not> DAY < clock0 3 - 1700000000001"
    by (simp_all add: carrot_def watchlist_def carol_def DAY_def clock0_def)
  have c4: "match_from clock0 (Some (after_item shop_twice ''gear'' [])) carol a = Inr a" for a
    by (simp add: match_from_def check_category_def after_item_def carol_def)
  have e1: "shop_dotted ''gear'' = Some (ItemArray ([] @ dotted # []))"
    by (simp add: shop_dotted_def)
  have e2: "match_user clock0 (Some (before_item shop_dotted ''gear'' [])) erin 0 =
      Inr ([], Map.empty, 0)"
    by (simp add: match_user_def match_from_def check_category_def before_item_def erin_def)
  have e3: "name dotted \<in> set (watchlist erin ''gear'')" "0 < quantity dotted"
    "\<not> valid_key (name dotted)"
    by (simp_all add: dotted_def watchlist_def erin_def valid_key_def)
  from notify_decision [where s = shop_both and c = "''gear''" and pre = "[]" and it = hoe
      and post = "[]", OF c d1 d2] d3
  have "match_user clock0 (Some shop_both) dave 0 =
     Inr ([''H Hoe: x3''], [''Hoe'' \<mapsto> 1700000000001], 2)"
    by (simp add: d4 hoe_line) (simp add: hoe_def clock0_def)
  moreover from notify_decision [where s = shop_twice and c = "''gear''" and pre = "[]"
      and it = carrot and post = "[]", OF c c1 c2] c3
  have "match_user clock0 (Some shop_twice) carol 0 =
     Inr ([''C Carrot: x50''], [''Carrot'' \<mapsto> 1700000000001], 4)"
    by (simp add: c4) (simp add: carrot_def)
  moreover from notify_decision [where s = shop_dotted and c = "''gear''" and pre = "[]"
      and it = dotted and post = "[]", OF c e1 e2] e3 d3(3)
  have "match_user clock0 (Some shop_dotted) erin 0 = Inl (MapKeyError, 2)"
    by simp
  ultimately show ?thesis using c d1 d2 d3 c1 c2 c3 e1 e2 e3 by simp
qed

subsection \<open>Failed sends\<close>

lemma same_posts_refl: "same_posts st st"
  unfolding same_posts_def by (rule exI [of _ "outbox st"]) simp

lemma send_same_posts:
  assumes "same_posts st st'"
  shows "same_posts (snd (sendMessengerMessage e to m st))
           (snd (sendMessengerMessage (e\<lparr>post_fails := f\<rparr>) to m st'))"
proof -
  from assms obtain ob where st': "st' = st\<lparr>outbox := ob\<rparr>"
    and ob: "map (\<lambda>(to, m, ok). (to, m)) ob = map (\<lambda>(to, m, ok). (to, m)) (outbox st)"
    by (auto simp: same_posts_def)
  show ?thesis
    unfolding same_posts_def send_eq snd_conv
    by (rule exI [of _ "ob @ [(to, m, \<not> f (awaits st))]"])
       (simp add: st' ob await_outbox)
qed

lemma updateOne_same_posts:
  assumes "same_posts st st'"
  shows "fst (User_updateOne (e\<lparr>post_fails := f\<rparr>) x l st') = fst (User_updateOne e x l st) \<and>
         same_posts (snd (User_updateOne e x l st))
           (snd (User_updateOne (e\<lparr>post_fails := f\<rparr>) x l st'))"
proof -
  from assms obtain ob where st': "st' = st\<lparr>outbox := ob\<rparr>"
    and ob: "map (\<lambda>(to, m, ok). (to, m)) ob = map (\<lambda>(to, m, ok). (to, m)) (outbox st)"
    by (auto simp: same_posts_def)
  show ?thesis
    unfolding same_posts_def User_updateOne_def Let_def
    by (auto simp: st' ob await_outbox intro!: exI [of _ ob])
qed

lemma process_user_same_posts:
  assumes "same_posts st st'"
  shows "fst (process_user (e\<lparr>post_fails := f\<rparr>) u st') = fst (process_user e u st) \<and>
         same_posts (snd (process_user e u st)) (snd (process_user (e\<lparr>post_fails := f\<rparr>) u st'))"
proof -
  from assms obtain ob where st': "st' = st\<lparr>outbox := ob\<rparr>"
    and ob: "map (\<lambda>(to, m, ok). (to, m)) ob = map (\<lambda>(to, m, ok). (to, m)) (outbox st)"
    by (auto simp: same_posts_def)
  show ?thesis
  proof (cases "match_user (now e) (stockData st) u (reads st)")
    case (Inl x)
    obtain err k where x: "x = (err, k)" by (cases x) auto
    have "same_posts (st\<lparr>reads := k\<rparr>) (st\<lparr>outbox := ob, reads := k\<rparr>)"
      unfolding same_posts_def by (rule exI [of _ ob]) (simp add: ob)
    then show ?thesis using Inl x by (simp add: process_user_def st')
  next
    case (Inr a)
    obtain buf ledg k where a: "a = (buf, ledg, k)" by (cases a) auto
    show ?thesis
    proof (cases "buf = []")
      case True
      have "same_posts (st\<lparr>reads := k\<rparr>) (st\<lparr>outbox := ob, reads := k\<rparr>)"
        unfolding same_posts_def by (rule exI [of _ ob]) (simp add: ob)
      then show ?thesis using Inr a True by (simp add: process_user_def st')
    next
      case False
      let ?t = "manila e (now e k)"
      let ?m = "Text (notifyMsg (uname u) ?t buf)"
      let ?s1 = "st\<lparr>reads := Suc k\<rparr>"
      have s1: "same_posts ?s1 (st'\<lparr>reads := Suc k\<rparr>)"
        unfolding same_posts_def by (rule exI [of _ ob]) (simp add: ob st')
      have p: "process_user e u st =
                 User_updateOne e (uid u) ledg (snd (sendMessengerMessage e (uid u) ?m ?s1))"
        using Inr a False
        by (simp add: process_user_def getManilaTime_def send_eq)
      have p': "process_user (e\<lparr>post_fails := f\<rparr>) u st' =
                 User_updateOne (e\<lparr>post_fails := f\<rparr>) (uid u) ledg
                   (snd (sendMessengerMessage (e\<lparr>post_fails := f\<rparr>) (uid u) ?m
                          (st'\<lparr>reads := Suc k\<rparr>)))"
        using Inr a False
        by (simp add: process_user_def getManilaTime_def st' send_eq)
      show ?thesis
        unfolding p p' by (rule updateOne_same_posts [OF send_same_posts [OF s1]])
    qed
  qed
qed

lemma for_users_same_posts:
  "same_posts st st' \<Longrightarrow>
   fst (for_users (e\<lparr>post_fails := f\<rparr>) us st') = fst (for_users e us st) \<and>
   same_posts (snd (for_users e us st)) (snd (for_users (e\<lparr>post_fails := f\<rparr>) us st'))"
proof (induction us arbitrary: st st')
  case Nil
  then show ?case by simp
next
  case (Cons u us)
  from process_user_same_posts [OF Cons.prems, where e = e and f = f and u = u]
  have 1: "fst (process_user (e\<lparr>post_fails := f\<rparr>) u st') = fst (process_user e u st)"
    and 2: "same_posts (snd (process_user e u st)) (snd (process_user (e\<lparr>post_fails := f\<rparr>) u st'))"
    by auto
  show ?case
  proof (cases "fst (process_user e u st)")
    case None
    then show ?thesis using 1 Cons.IH [OF 2]
      by (auto split: prod.splits option.splits)
  next
    case (Some err)
    then show ?thesis using 1 2 by (auto split: prod.splits option.splits)
  qed
qed

lemma cron_job_same_posts:
  "same_posts (cron_job e st) (cron_job (e\<lparr>post_fails := f\<rparr>) st)"
proof (cases "stockData st = None \<or> db_fails e (awaits st)")
  case True
  then show ?thesis by (auto simp: cron_job_def User_find_def Let_def same_posts_refl)
next
  case False
  then show ?thesis
    using for_users_same_posts [OF same_posts_refl, where e = e and f = f and us = "users st"
        and st = "await e st"]
    by (auto simp: cron_job_def User_find_def Let_def)
qed

lemma match_alice:
  "match_user clock0 (Some shop) alice 0 =
     Inr ([''C Carrot: x50''], [''Carrot'' \<mapsto> 1700000000001], 2)"
  by (simp add: match_user_def match_from_def check_category_def shop_def alice_def
        check_item_def or_zero_def DAY_def clock0_def carrot_line valid_key_def)
     (simp add: carrot_def)

lemma findOne_updateOne:
  "findOne x db = Some d \<Longrightarrow> findOne x (updateOne x l db) = Some (d\<lparr>lastNotified := l\<rparr>)"
  by (induction db) (auto simp: findOne_def)

lemma findOne_updateOne_other:
  "x \<noteq> y \<Longrightarrow> findOne y (updateOne x l db) = findOne y db"
  by (induction db) (auto simp: findOne_def)

text \<open>
  Claim C6.  \<open>sendMessengerMessage\<close> never throws, whatever \<open>axios.post\<close> does.  In the
  matching run, when a user has lines to send and the post fails, the failed post is the
  only thing recorded for the send and the loop body still goes on to \<open>User.updateOne\<close>:
  if that call succeeds the body ends normally, the user's document in the collection
  holds the ledger that the matching has produced, and the loop goes on with the users
  that follow.  Moreover, replacing the outcomes of all sends by any others changes
  neither the collection after the run nor the recipients and messages of the posts made.
\<close>

theorem send_failure_is_swallowed:
  "fst (sendMessengerMessage e to m st) = None \<and>
   (match_user (now e) (stockData st) u (reads st) = Inr (buf, ledg, k) \<and> buf \<noteq> [] \<and>
    post_fails e (awaits st) \<and> \<not> db_fails e (Suc (awaits st)) \<longrightarrow>
      fst (process_user e u st) = None \<and>
      outbox (snd (process_user e u st)) =
        outbox st @ [(uid u, Text (notifyMsg (uname u) (manila e (now e k)) buf), False)] \<and>
      users (snd (process_user e u st)) = updateOne (uid u) ledg (users st) \<and>
      (\<forall>d. findOne (uid u) (users st) = Some d \<longrightarrow>
         findOne (uid u) (users (snd (process_user e u st))) = Some (d\<lparr>lastNotified := ledg\<rparr>)) \<and>
      for_users e (u # us) st = for_users e us (snd (process_user e u st))) \<and>
   users (cron_job (e\<lparr>post_fails := f\<rparr>) st) = users (cron_job e st) \<and>
   map (\<lambda>(to, m, ok). (to, m)) (outbox (cron_job (e\<lparr>post_fails := f\<rparr>) st)) =
     map (\<lambda>(to, m, ok). (to, m)) (outbox (cron_job e st))"
proof -
  have 1: "fst (sendMessengerMessage e to m st) = None"
    by (simp add: send_eq)
  have 2: "fst (process_user e u st) = None \<and>
      outbox (snd (process_user e u st)) =
        outbox st @ [(uid u, Text (notifyMsg (uname u) (manila e (now e k)) buf), False)] \<and>
      users (snd (process_user e u st)) = updateOne (uid u) ledg (users st) \<and>
      (\<forall>d. findOne (uid u) (users st) = Some d \<longrightarrow>
         findOne (uid u) (users (snd (process_user e u st))) = Some (d\<lparr>lastNotified := ledg\<rparr>)) \<and>
      for_users e (u # us) st = for_users e us (snd (process_user e u st))"
    if m: "match_user (now e) (stockData st) u (reads st) = Inr (buf, ledg, k)" and b: "buf \<noteq> []"
      and p: "post_fails e (awaits st)" and d: "\<not> db_fails e (Suc (awaits st))"
  proof -
    have r: "fst (process_user e u st) = None"
      and o: "outbox (snd (process_user e u st)) =
        outbox st @ [(uid u, Text (notifyMsg (uname u) (manila e (now e k)) buf), False)]"
      and s: "users (snd (process_user e u st)) = updateOne (uid u) ledg (users st)"
      using m b p d
      by (simp_all add: process_user_def getManilaTime_def send_eq User_updateOne_def)
    from r have "for_users e (u # us) st = for_users e us (snd (process_user e u st))"
      by (cases "process_user e u st") simp
    with r o s show ?thesis by (simp add: findOne_updateOne)
  qed
  from cron_job_same_posts [of e st f]
  obtain ob where 3: "cron_job (e\<lparr>post_fails := f\<rparr>) st = (cron_job e st)\<lparr>outbox := ob\<rparr>"
    and 4: "map (\<lambda>(to, m, ok). (to, m)) ob = map (\<lambda>(to, m, ok). (to, m)) (outbox (cron_job e st))"
    by (auto simp: same_posts_def)
  have 5: "users (cron_job (e\<lparr>post_fails := f\<rparr>) st) = users (cron_job e st)"
    "map (\<lambda>(to, m, ok). (to, m)) (outbox (cron_job (e\<lparr>post_fails := f\<rparr>) st)) =
       map (\<lambda>(to, m, ok). (to, m)) (outbox (cron_job e st))"
    by (simp_all add: 3 4)
  from 1 2 5 show ?thesis by blast
qed

lemma first_post_fails_run:
  "map (\<lambda>(to, m, ok). (to, ok)) (outbox (cron_job env_first_post_fails two_users)) =
     [(''1001'', False), (''1002'', True)] \<and>
   map (\<lambda>d. lastNotified d ''Carrot'') (users (cron_job env_first_post_fails two_users)) =
     [Some 1700000000001, Some 1700000000004]"
  by code_simp

theorem send_failure_is_swallowed_witness:
  "match_user (now env_first_post_fails) (stockData (await env_first_post_fails two_users)) alice
      (reads (await env_first_post_fails two_users)) =
     Inr ([''C Carrot: x50''], [''Carrot'' \<mapsto> 1700000000001], 2) \<and>
   post_fails env_first_post_fails (awaits (await env_first_post_fails two_users)) \<and>
   \<not> db_fails env_first_post_fails (Suc (awaits (await env_first_post_fails two_users))) \<and>
   findOne (uid alice) (users (await env_first_post_fails two_users)) = Some alice \<and>
   fst (process_user env_first_post_fails alice (await env_first_post_fails two_users)) = None \<and>
   map (\<lambda>(to, m, ok). (to, ok))
     (outbox (snd (process_user env_first_post_fails alice (await env_first_post_fails two_users)))) =
     [(''1001'', False)] \<and>
   findOne (uid alice)
     (users (snd (process_user env_first_post_fails alice (await env_first_post_fails two_users)))) =
     Some (alice\<lparr>lastNotified := [''Carrot'' \<mapsto> 1700000000001]\<rparr>) \<and>
   for_users env_first_post_fails [alice, bob] (await env_first_post_fails two_users) =
     for_users env_first_post_fails [bob]
       (snd (process_user env_first_post_fails alice (await env_first_post_fails two_users))) \<and>
   map (\<lambda>(to, m, ok). (to, ok)) (outbox (cron_job env_first_post_fails two_users)) =
     [(''1001'', False), (''1002'', True)] \<and>
   map (\<lambda>d. lastNotified d ''Carrot'') (users (cron_job env_first_post_fails two_users)) =
     [Some 1700000000001, Some 1700000000004]"
proof -
  let ?e = env_first_post_fails
  let ?st = "await env_first_post_fails two_users"
  have s: "stockData ?st = Some shop" "outbox ?st = []"
    by (simp_all add: await_def env_first_post_fails_def env0_def two_users_def boot_def)
  have h1: "match_user (now ?e) (stockData ?st) alice (reads ?st) =
      Inr ([''C Carrot: x50''], [''Carrot'' \<mapsto> 1700000000001], 2)"
    using match_alice by (simp add: s) (simp add: env_first_post_fails_def env0_def two_users_def boot_def)
  have h2: "[''C Carrot: x50''] \<noteq> []" "post_fails ?e (awaits ?st)"
    "\<not> db_fails ?e (Suc (awaits ?st))"
    by (simp_all add: env_first_post_fails_def env0_def two_users_def boot_def)
  have h3: "findOne (uid alice) (users ?st) = Some alice"
    by (simp add: findOne_def two_users_def boot_def)
  from send_failure_is_swallowed [where e = ?e and st = ?st and u = alice
      and buf = "[''C Carrot: x50'']" and ledg = "[''Carrot'' \<mapsto> 1700000000001]" and k = 2
      and us = "[bob]" and to = "''1001''" and m = "Text ''hello''" and f = "\<lambda>k. False"]
    h1 h2 h3
  have "fst (process_user ?e alice ?st) = None"
    and "outbox (snd (process_user ?e alice ?st)) =
        outbox ?st @ [(uid alice, Text (notifyMsg (uname alice) (manila ?e (now ?e 2))
           [''C Carrot: x50'']), False)]"
    and "findOne (uid alice) (users (snd (process_user ?e alice ?st))) =
        Some (alice\<lparr>lastNotified := [''Carrot'' \<mapsto> 1700000000001]\<rparr>)"
    and "for_users ?e [alice, bob] ?st = for_users ?e [bob] (snd (process_user ?e alice ?st))"
    by blast+
  moreover have "uid alice = ''1001''" "outbox two_users = []"
    by (simp_all add: alice_def two_users_def boot_def)
  ultimately show ?thesis using h1 h2 h3 first_post_fails_run by (simp add: s)
qed

subsection \<open>The registration prompt\<close>




lemma registration_phases:
  "sendRegistrationMessage e to st =
     (case registration_begin e to st of
        (go, st1) \<Rightarrow> if go then registration_end e to st1 else (None, st1))"
  by (simp add: sendRegistrationMessage_def registration_begin_def registration_end_def
        split: option.splits prod.splits)




subsection \<open>Exceptions and feed events during a run\<close>

lemma await_quiet: "feed e (awaits st) = [] \<Longrightarrow> await e st = st\<lparr>awaits := Suc (awaits st)\<rparr>"
  by (simp add: await_def)

text \<open>
  Claim C2 as stated fails.  The feed's seed category carries an \<open>items\<close> value that is
  not an array, and its gear category is well-formed with the hoe in stock.  Alice watches
  a seed, so building her message throws; Dave watches only the hoe.  With Alice before
  Dave in the collection the run ends at her: Dave gets no message and no ledger entry.
  With Dave first, the same run notifies him.  Likewise with well-formed data: Erin
  watches an item whose name the ledger's map rejects, and Bob, behind her in the
  collection, is not notified about the carrot that is in stock.
\<close>

theorem later_users_skipped_counterexample:
  "fst (process_user env0 alice (await env0 (bad_seed [alice, dave]))) = Some TypeError \<and>
   map fst (outbox (cron_job env0 (bad_seed [alice, dave]))) = [] \<and>
   map (\<lambda>u. lastNotified u ''Hoe'') (users (cron_job env0 (bad_seed [alice, dave]))) = [None, None] \<and>
   map fst (outbox (cron_job env0 (bad_seed [dave, alice]))) = [''1004''] \<and>
   map (\<lambda>u. lastNotified u ''Hoe'') (users (cron_job env0 (bad_seed [dave, alice]))) =
     [Some 1700000000001, None] \<and>
   fst (process_user env0 erin (await env0 (dotted_shop [erin, bob]))) = Some MapKeyError \<and>
   map fst (outbox (cron_job env0 (dotted_shop [erin, bob]))) = [] \<and>
   map (\<lambda>u. lastNotified u ''Carrot'') (users (cron_job env0 (dotted_shop [erin, bob]))) =
     [None, None] \<and>
   map fst (outbox (cron_job env0 (dotted_shop [bob, erin]))) = [''1002''] \<and>
   map (\<lambda>u. lastNotified u ''Carrot'') (users (cron_job env0 (dotted_shop [bob, erin]))) =
     [Some 1700000000001, None]"
  by code_simp

text \<open>
  Claim C3 as stated fails.  The two runs start from the same state with the carrot in
  stock; in the second, a feed message that replaces the snapshot by one with tomatoes
  only is handled while Alice's message is being sent.  Bob is then matched against the
  new snapshot and is not notified about the carrot.
\<close>

theorem snapshot_replaced_mid_run_counterexample:
  "map fst (outbox (cron_job env0 two_users)) = [''1001'', ''1002''] \<and>
   map fst (outbox (cron_job env_restock two_users)) = [''1001'']"
  by code_simp

lemma for_users_append:
  "for_users e us1 st = (None, st1) \<Longrightarrow> for_users e (us1 @ us) st = for_users e us st1"
  by (induction us1 arbitrary: st) (auto split: prod.splits option.splits)

lemma process_user_throws:
  assumes "process_user e u st = (Some err, st2)"
  shows "users st2 = users st \<and>
         (case match_user (now e) (stockData st) u (reads st) of
            Inl (x, k) \<Rightarrow> err = x \<and> outbox st2 = outbox st
          | Inr (buf, ledg, k) \<Rightarrow>
              err = MongoError \<and> buf \<noteq> [] \<and> db_fails e (Suc (awaits st)) \<and>
              outbox st2 = outbox st @
                [(uid u, Text (notifyMsg (uname u) (manila e (now e k)) buf),
                  \<not> post_fails e (awaits st))])"
  using assms
  by (auto simp: process_user_def getManilaTime_def send_eq User_updateOne_def Let_def
      split: sum.splits prod.splits if_splits)

text \<open>
  Claim C2, as amended.  The \<open>try\<close> encloses the whole loop.  When the processing of a
  user throws, the run ends in the state reached at the throw and the error does not
  leave the callback.  The users before the failing one have been processed in full and
  the collection is as they left it: nothing is stored for the failing user.  When the
  exception came from the matching (malformed data, a name that the ledger's map
  rejects), no message has been posted to the failing user; when it came from storing
  the ledger, their message has been posted already.  No user after the failing one is
  processed in this cycle: no message is posted to them and their documents are not
  written.
\<close>

theorem throw_ends_the_run:
  assumes "stockData st \<noteq> None" and "\<not> db_fails e (awaits st)"
    and "users st = us1 @ u # us2"
    and "for_users e us1 (await e st) = (None, st1)"
    and "process_user e u st1 = (Some err, st2)"
  shows "cron_job e st = st2 \<and> users st2 = users st1 \<and>
         (case match_user (now e) (stockData st1) u (reads st1) of
            Inl (x, k) \<Rightarrow> err = x \<and> outbox st2 = outbox st1
          | Inr (buf, ledg, k) \<Rightarrow>
              err = MongoError \<and> buf \<noteq> [] \<and> db_fails e (Suc (awaits st1)) \<and>
              outbox st2 = outbox st1 @
                [(uid u, Text (notifyMsg (uname u) (manila e (now e k)) buf),
                  \<not> post_fails e (awaits st1))])"
proof -
  have "for_users e (us1 @ u # us2) (await e st) = (Some err, st2)"
    using for_users_append [OF assms(4), of "u # us2"] assms(5) by simp
  then have "cron_job e st = st2"
    using assms(1-3) by (auto simp: cron_job_def User_find_def Let_def)
  with process_user_throws [OF assms(5)] show ?thesis by simp
qed

lemma malformed_run:
  "fst (for_users env0 [dave] (await env0 (bad_seed [dave, alice, bob]))) = None \<and>
   fst (process_user env0 alice
          (snd (for_users env0 [dave] (await env0 (bad_seed [dave, alice, bob]))))) =
     Some TypeError \<and>
   map_sum id (\<lambda>a. ()) (match_user (now env0)
      (stockData (snd (for_users env0 [dave] (await env0 (bad_seed [dave, alice, bob])))))
      alice (reads (snd (for_users env0 [dave] (await env0 (bad_seed [dave, alice, bob])))))) =
     Inl (TypeError, 3) \<and>
   map (\<lambda>(to, m, ok). (to, ok)) (outbox (cron_job env0 (bad_seed [dave, alice, bob]))) =
     [(''1004'', True)] \<and>
   map (\<lambda>d. (lastNotified d ''Hoe'', lastNotified d ''Carrot''))
     (users (cron_job env0 (bad_seed [dave, alice, bob]))) =
     [(Some 1700000000001, None), (None, None), (None, None)]"
  by code_simp

lemma update_rejected_run:
  "fst (for_users env_update_rejected [dave] (await env_update_rejected three_users)) = None \<and>
   fst (process_user env_update_rejected alice
          (snd (for_users env_update_rejected [dave] (await env_update_rejected three_users)))) =
     Some MongoError \<and>
   map_sum id (\<lambda>(buf, ledg, k). (buf, k)) (match_user (now env_update_rejected)
      (stockData (snd (for_users env_update_rejected [dave] (await env_update_rejected three_users))))
      alice
      (reads (snd (for_users env_update_rejected [dave] (await env_update_rejected three_users))))) =
     Inr ([''C Carrot: x50''], 5) \<and>
   map (\<lambda>(to, m, ok). (to, ok)) (outbox (cron_job env_update_rejected three_users)) =
     [(''1004'', True), (''1001'', True)] \<and>
   map (\<lambda>d. (lastNotified d ''Hoe'', lastNotified d ''Carrot''))
     (users (cron_job env_update_rejected three_users)) =
     [(Some 1700000000001, None), (None, None), (None, None)]"
  by code_simp

theorem throw_ends_the_run_witness:
  "stockData (bad_seed [dave, alice, bob]) \<noteq> None \<and>
   \<not> db_fails env0 (awaits (bad_seed [dave, alice, bob])) \<and>
   users (bad_seed [dave, alice, bob]) = [dave] @ alice # [bob] \<and>
   fst (for_users env0 [dave] (await env0 (bad_seed [dave, alice, bob]))) = None \<and>
   fst (process_user env0 alice
          (snd (for_users env0 [dave] (await env0 (bad_seed [dave, alice, bob]))))) =
     Some TypeError \<and>
   cron_job env0 (bad_seed [dave, alice, bob]) =
     snd (process_user env0 alice
            (snd (for_users env0 [dave] (await env0 (bad_seed [dave, alice, bob]))))) \<and>
   outbox (cron_job env0 (bad_seed [dave, alice, bob])) =
     outbox (snd (for_users env0 [dave] (await env0 (bad_seed [dave, alice, bob])))) \<and>
   users (cron_job env0 (bad_seed [dave, alice, bob])) =
     users (snd (for_users env0 [dave] (await env0 (bad_seed [dave, alice, bob])))) \<and>
   map (\<lambda>(to, m, ok). (to, ok)) (outbox (cron_job env0 (bad_seed [dave, alice, bob]))) =
     [(''1004'', True)] \<and>
   map (\<lambda>d. (lastNotified d ''Hoe'', lastNotified d ''Carrot''))
     (users (cron_job env0 (bad_seed [dave, alice, bob]))) =
     [(Some 1700000000001, None), (None, None), (None, None)] \<and>
   stockData three_users \<noteq> None \<and> \<not> db_fails env_update_rejected (awaits three_users) \<and>
   users three_users = [dave] @ alice # [bob] \<and>
   fst (for_users env_update_rejected [dave] (await env_update_rejected three_users)) = None \<and>
   fst (process_user env_update_rejected alice
          (snd (for_users env_update_rejected [dave] (await env_update_rejected three_users)))) =
     Some MongoError \<and>
   cron_job env_update_rejected three_users =
     snd (process_user env_update_rejected alice
            (snd (for_users env_update_rejected [dave] (await env_update_rejected three_users)))) \<and>
   map (\<lambda>(to, m, ok). (to, ok)) (outbox (cron_job env_update_rejected three_users)) =
     map (\<lambda>(to, m, ok). (to, ok))
       (outbox (snd (for_users env_update_rejected [dave] (await env_update_rejected three_users)))) @
     [(''1001'', True)] \<and>
   users (cron_job env_update_rejected three_users) =
     users (snd (for_users env_update_rejected [dave] (await env_update_rejected three_users))) \<and>
   map (\<lambda>(to, m, ok). (to, ok)) (outbox (cron_job env_update_rejected three_users)) =
     [(''1004'', True), (''1001'', True)] \<and>
   map (\<lambda>d. (lastNotified d ''Hoe'', lastNotified d ''Carrot''))
     (users (cron_job env_update_rejected three_users)) =
     [(Some 1700000000001, None), (None, None), (None, None)]"
proof -
  let ?sa = "bad_seed [dave, alice, bob]"
  let ?sa1 = "snd (for_users env0 [dave] (await env0 ?sa))"
  let ?sb1 = "snd (for_users env_update_rejected [dave] (await env_update_rejected three_users))"
  have a: "stockData ?sa \<noteq> None" "\<not> db_fails env0 (awaits ?sa)"
    "users ?sa = [dave] @ alice # [bob]"
    by (simp_all add: bad_seed_def boot_def env0_def)
  have a4: "for_users env0 [dave] (await env0 ?sa) = (None, ?sa1)"
    using malformed_run by (simp add: prod_eq_iff)
  have a5: "process_user env0 alice ?sa1 = (Some TypeError, snd (process_user env0 alice ?sa1))"
    using malformed_run by (simp add: prod_eq_iff)
  from malformed_run obtain x where
    ma: "match_user (now env0) (stockData ?sa1) alice (reads ?sa1) = Inl x"
    by (cases "match_user (now env0) (stockData ?sa1) alice (reads ?sa1)") auto
  from throw_ends_the_run [OF a a4 a5] ma
  have ra: "cron_job env0 ?sa = snd (process_user env0 alice ?sa1)"
    "outbox (cron_job env0 ?sa) = outbox ?sa1" "users (cron_job env0 ?sa) = users ?sa1"
    by (auto split: prod.splits)
  have b: "stockData three_users \<noteq> None" "\<not> db_fails env_update_rejected (awaits three_users)"
    "users three_users = [dave] @ alice # [bob]"
    by (simp_all add: three_users_def boot_def env_update_rejected_def env0_def)
  have b4: "for_users env_update_rejected [dave] (await env_update_rejected three_users) =
      (None, ?sb1)"
    using update_rejected_run by (simp add: prod_eq_iff)
  have b5: "process_user env_update_rejected alice ?sb1 =
      (Some MongoError, snd (process_user env_update_rejected alice ?sb1))"
    using update_rejected_run by (simp add: prod_eq_iff)
  from update_rejected_run obtain ledg where
    mb: "match_user (now env_update_rejected) (stockData ?sb1) alice (reads ?sb1) =
           Inr ([''C Carrot: x50''], ledg, 5)"
    by (cases "match_user (now env_update_rejected) (stockData ?sb1) alice (reads ?sb1)") auto
  have pf: "\<not> post_fails env_update_rejected k" "uid alice = ''1001''" for k
    by (simp_all add: env_update_rejected_def env0_def alice_def)
  from throw_ends_the_run [OF b b4 b5] mb pf
  have rb: "cron_job env_update_rejected three_users =
      snd (process_user env_update_rejected alice ?sb1)"
    "map (\<lambda>(to, m, ok). (to, ok)) (outbox (cron_job env_update_rejected three_users)) =
       map (\<lambda>(to, m, ok). (to, ok)) (outbox ?sb1) @ [(''1001'', True)]"
    "users (cron_job env_update_rejected three_users) = users ?sb1"
    by auto
  show ?thesis
    using a ra b rb malformed_run update_rejected_run by (intro conjI) simp_all
qed

lemma process_user_awaits: "awaits st \<le> awaits (snd (process_user e u st))"
  by (auto simp: process_user_def getManilaTime_def send_eq User_updateOne_def Let_def
      split: sum.splits prod.splits)

lemma for_users_awaits: "awaits st \<le> awaits (snd (for_users e us st))"
proof (induction us arbitrary: st)
  case Nil
  show ?case by simp
next
  case (Cons u us)
  show ?case
  proof (cases "process_user e u st")
    case (Pair r st')
    with process_user_awaits [of st e u] have "awaits st \<le> awaits st'" by simp
    with Cons [of st'] Pair show ?thesis by (auto split: option.splits)
  qed
qed

lemma process_user_calm:
  assumes "\<forall>k. awaits st \<le> k \<and> k < awaits (snd (process_user e u st)) \<longrightarrow> feed e k = []"
    and "stockData st = Some snapshot"
  shows "process_user e u st = spec_process_user e snapshot u st \<and>
         stockData (snd (process_user e u st)) = Some snapshot"
proof (cases "match_user (now e) (Some snapshot) u (reads st)")
  case (Inl x)
  then show ?thesis using assms(2)
    by (simp add: process_user_def spec_process_user_def split: prod.splits)
next
  case (Inr a)
  obtain buf ledg k where a: "a = (buf, ledg, k)" by (cases a) auto
  show ?thesis
  proof (cases "buf = []")
    case True
    then show ?thesis using Inr a assms(2) by (simp add: process_user_def spec_process_user_def)
  next
    case False
    have "awaits (snd (process_user e u st)) = Suc (Suc (awaits st))"
      using Inr a False assms(2)
      by (simp add: process_user_def getManilaTime_def send_eq User_updateOne_def Let_def)
    with assms(1) have q: "feed e (awaits st) = []" "feed e (Suc (awaits st)) = []"
      by simp_all
    show ?thesis
      using Inr a False assms(2) q
      by (simp add: process_user_def spec_process_user_def getManilaTime_def send_eq
            User_updateOne_def Let_def await_def)
  qed
qed

lemma for_users_calm:
  "\<forall>k. awaits st \<le> k \<and> k < awaits (snd (for_users e us st)) \<longrightarrow> feed e k = [] \<Longrightarrow>
   stockData st = Some snapshot \<Longrightarrow> for_users e us st = spec_for_users e snapshot us st"
proof (induction us arbitrary: st)
  case Nil
  then show ?case by simp
next
  case (Cons u us)
  obtain r st' where p: "process_user e u st = (r, st')" by (cases "process_user e u st") auto
  have le1: "awaits st \<le> awaits st'" using process_user_awaits [of st e u] p by simp
  have le2: "awaits st' \<le> awaits (snd (for_users e (u # us) st))"
    using for_users_awaits [of st' e us] p by (cases r) simp_all
  have "\<forall>k. awaits st \<le> k \<and> k < awaits (snd (process_user e u st)) \<longrightarrow> feed e k = []"
    using Cons.prems(1) le2 p by auto
  from process_user_calm [OF this Cons.prems(2)] p
  have 1: "spec_process_user e snapshot u st = (r, st')" and 2: "stockData st' = Some snapshot"
    by simp_all
  show ?case
  proof (cases r)
    case (Some err)
    then show ?thesis using p 1 by simp
  next
    case None
    have "\<forall>k. awaits st' \<le> k \<and> k < awaits (snd (for_users e us st')) \<longrightarrow> feed e k = []"
      using Cons.prems(1) le1 p None by auto
    from Cons.IH [OF this 2] show ?thesis using p 1 None by simp
  qed
qed

text \<open>
  Claim C3, as amended.  A run whose store is absent at the start does nothing.  The run
  does not keep the value it tested: every user is matched against the store as it is when
  that user is processed.  When no feed event is handled at any of the run's suspensions,
  the run is the one of the specification, which evaluates every check against the
  snapshot read at the start.
\<close>

theorem cron_job_reads_live_store:
  "(stockData st = None \<longrightarrow> cron_job e st = st) \<and>
   ((\<forall>k. awaits st \<le> k \<and> k < awaits (cron_job e st) \<longrightarrow> feed e k = []) \<longrightarrow>
      cron_job e st = spec_cron_job e st)"
proof (intro conjI impI)
  show "cron_job e st = st" if "stockData st = None"
    using that by (simp add: cron_job_def)
  show "cron_job e st = spec_cron_job e st"
    if q: "\<forall>k. awaits st \<le> k \<and> k < awaits (cron_job e st) \<longrightarrow> feed e k = []"
  proof (cases "stockData st")
    case None
    then show ?thesis by (simp add: cron_job_def spec_cron_job_def)
  next
    case (Some snapshot)
    show ?thesis
    proof (cases "db_fails e (awaits st)")
      case True
      then show ?thesis using Some by (simp add: cron_job_def spec_cron_job_def User_find_def Let_def)
    next
      case False
      let ?st = "await e st"
      have run: "cron_job e st = snd (for_users e (users st) ?st)"
        using Some False by (simp add: cron_job_def User_find_def Let_def)
      have "awaits st < awaits (cron_job e st)"
        using for_users_awaits [of ?st e "users st"] by (simp add: run)
      with q have "feed e (awaits st) = []" by simp
      then have s: "stockData ?st = Some snapshot" using Some by (simp add: await_def)
      have "\<forall>k. awaits ?st \<le> k \<and> k < awaits (snd (for_users e (users st) ?st)) \<longrightarrow> feed e k = []"
        using q by (simp add: run)
      from for_users_calm [OF this s] show ?thesis
        using Some False by (simp add: cron_job_def spec_cron_job_def User_find_def Let_def)
    qed
  qed
qed

lemma late_restock_awaits: "awaits (cron_job env_late_restock two_users) = 5"
  by code_simp

theorem cron_job_reads_live_store_witness:
  "stockData (boot [alice, bob]) = None \<and>
   cron_job env_late_restock (boot [alice, bob]) = boot [alice, bob] \<and>
   awaits two_users = 0 \<and> awaits (cron_job env_late_restock two_users) = 5 \<and>
   feed env_late_restock 4 = [] \<and>
   cron_job env_late_restock two_users = spec_cron_job env_late_restock two_users"
proof -
  have quiet: "\<forall>k. awaits two_users \<le> k \<and> k < awaits (cron_job env_late_restock two_users)
      \<longrightarrow> feed env_late_restock k = []"
    unfolding late_restock_awaits by (simp add: env_late_restock_def)
  have none: "stockData (boot [alice, bob]) = None"
    by (simp add: boot_def)
  have "awaits two_users = 0" "feed env_late_restock 4 = []"
    by (simp_all add: env_late_restock_def two_users_def boot_def)
  moreover
  from cron_job_reads_live_store [of "boot [alice, bob]" env_late_restock] none
  have "cron_job env_late_restock (boot [alice, bob]) = boot [alice, bob]" by blast
  moreover
  from cron_job_reads_live_store [of two_users env_late_restock] quiet
  have "cron_job env_late_restock two_users = spec_cron_job env_late_restock two_users" by blast
  ultimately show ?thesis using none late_restock_awaits by simp
qed

subsection \<open>One line per name, and the reset of the cooldown\<close>





lemma render_ticks [simp]: "snd (snd (render a)) = snd (snd a)"
  by (cases a) (simp add: render_def)




lemma forEach_Inr_induct:
  assumes "forEach f xs a = Inr a'" and "P a"
    and "\<And>x b b'. f x b = Inr b' \<Longrightarrow> P b \<Longrightarrow> P b'"
  shows "P a'"
  using assms(1,2)
proof (induction xs arbitrary: a)
  case Nil
  then show ?case by simp
next
  case (Cons x xs)
  from Cons.prems(1) obtain b where b: "f x a = Inr b" and r: "forEach f xs b = Inr a'"
    by (cases "f x a") simp_all
  from assms(3) [OF b Cons.prems(2)] have "P b" .
  from Cons.IH [OF r this] show ?case .
qed





































subsection \<open>The ledger never decreases\<close>

lemma ledger_le_refl: "ledger_le l l"
  by (simp add: ledger_le_def)

lemma ledger_le_trans: "ledger_le a b \<Longrightarrow> ledger_le b c \<Longrightarrow> ledger_le a c"
  unfolding ledger_le_def by (meson order_trans)

lemma check_item_ledger_le:
  assumes "clk k \<le> clk (Suc k)"
    and "check_item clk watch it (buf, ledg, k) = Inr (buf', ledg', k')"
  shows "ledger_le ledg ledg'"
  using assms
  by (auto simp: check_item_def or_zero_def Let_def ledger_le_def DAY_def
      split: if_splits option.splits)

lemma forEach_check_item_ledger_le:
  assumes mono: "\<forall>k. clk k \<le> clk (Suc k)"
    and run: "forEach (check_item clk watch) its a = Inr a'"
  shows "ledger_le (fst (snd a)) (fst (snd a'))"
proof (rule forEach_Inr_induct [OF run, where P = "\<lambda>b. ledger_le (fst (snd a)) (fst (snd b))"])
  show "ledger_le (fst (snd a)) (fst (snd a))" by (rule ledger_le_refl)
next
  fix it b b'
  assume s: "check_item clk watch it b = Inr b'" and l: "ledger_le (fst (snd a)) (fst (snd b))"
  obtain buf ledg k where b: "b = (buf, ledg, k)" by (cases b) auto
  obtain buf' ledg' k' where b': "b' = (buf', ledg', k')" by (cases b') auto
  from check_item_ledger_le [OF _ s [unfolded b b']] mono have "ledger_le ledg ledg'" by blast
  with l show "ledger_le (fst (snd a)) (fst (snd b'))"
    by (simp add: b b') (erule ledger_le_trans)
qed

lemma check_category_ledger_le:
  assumes mono: "\<forall>k. clk k \<le> clk (Suc k)"
    and "check_category clk watch sd c a = Inr a'"
  shows "ledger_le (fst (snd a)) (fst (snd a'))"
  using assms(2) forEach_check_item_ledger_le [OF mono, of watch _ a a']
  by (auto simp: check_category_def ledger_le_refl split: if_splits option.splits items.splits)

lemma match_user_ledger_le:
  assumes mono: "\<forall>k. clk k \<le> clk (Suc k)"
    and m: "match_user clk sd u k = Inr (buf, ledg, k')"
  shows "ledger_le (lastNotified u) ledg"
proof -
  from m obtain a1 a2 a3 where
    c1: "check_category clk (seeds u) sd ''seed'' ([], lastNotified u, k) = Inr a1" and
    c2: "check_category clk (gear u) sd ''gear'' a1 = Inr a2" and
    c3: "check_category clk (eggs u) sd ''egg'' a2 = Inr a3" and
    c4: "check_category clk (travelingmerchant u) sd ''travelingmerchant'' a3 = Inr (buf, ledg, k')"
    by (auto simp: match_user_def match_from_def and_then_def split: sum.splits)
  note l = check_category_ledger_le [OF mono]
  from l [OF c1] l [OF c2] l [OF c3] l [OF c4] show ?thesis
    by (auto intro: ledger_le_trans)
qed

lemma updateOne_uids [simp]: "map uid (updateOne x l db) = map uid db"
  by (induction db) auto

lemma updateOne_doc_le:
  assumes "\<forall>d\<in>set db. uid d = x \<longrightarrow> ledger_le (lastNotified d) l"
  shows "list_all2 doc_le db (updateOne x l db)"
  using assms
  by (induction db) (auto simp: doc_le_def ledger_le_refl list_all2_refl)

lemma updateOne_other:
  "d' \<in> set (updateOne x l db) \<Longrightarrow> uid d' \<noteq> x \<Longrightarrow> d' \<in> set db"
  by (induction db) (auto split: if_splits)

lemma doc_le_trans: "doc_le a b \<Longrightarrow> doc_le b c \<Longrightarrow> doc_le a c"
  by (auto simp: doc_le_def intro: ledger_le_trans)

lemma list_all2_doc_le_trans:
  "list_all2 doc_le xs ys \<Longrightarrow> list_all2 doc_le ys zs \<Longrightarrow> list_all2 doc_le xs zs"
  by (rule list_all2_trans [OF doc_le_trans])

lemma list_all2_doc_le_refl: "list_all2 doc_le xs xs"
  by (simp add: list_all2_refl doc_le_def ledger_le_refl)

lemma process_user_users:
  "users (snd (process_user e u st)) = users st \<or>
   (\<exists>buf ledg k. match_user (now e) (stockData st) u (reads st) = Inr (buf, ledg, k) \<and>
      users (snd (process_user e u st)) = updateOne (uid u) ledg (users st))"
  by (auto simp: process_user_def getManilaTime_def send_eq User_updateOne_def Let_def
      split: sum.splits prod.splits)

lemma process_user_doc_le:
  assumes mono: "\<forall>k. now e k \<le> now e (Suc k)"
    and mem: "\<forall>d\<in>set (users st). uid d = uid u \<longrightarrow> ledger_le (lastNotified d) (lastNotified u)"
  shows "list_all2 doc_le (users st) (users (snd (process_user e u st)))"
proof -
  from process_user_users [of e u st] show ?thesis
  proof
    assume "users (snd (process_user e u st)) = users st"
    then show ?thesis by (simp add: list_all2_doc_le_refl)
  next
    assume "\<exists>buf ledg k. match_user (now e) (stockData st) u (reads st) = Inr (buf, ledg, k) \<and>
      users (snd (process_user e u st)) = updateOne (uid u) ledg (users st)"
    then obtain buf ledg k where m: "match_user (now e) (stockData st) u (reads st) = Inr (buf, ledg, k)"
      and upd: "users (snd (process_user e u st)) = updateOne (uid u) ledg (users st)" by blast
    from match_user_ledger_le [OF mono m] mem
    have "\<forall>d\<in>set (users st). uid d = uid u \<longrightarrow> ledger_le (lastNotified d) ledg"
      by (blast intro: ledger_le_trans)
    from updateOne_doc_le [OF this] upd show ?thesis by simp
  qed
qed

lemma process_user_keeps_others:
  assumes "d' \<in> set (users (snd (process_user e u st)))" and "uid d' \<noteq> uid u"
  shows "d' \<in> set (users st)"
  using process_user_users [of e u st] assms updateOne_other by fastforce

lemma for_users_doc_le:
  assumes mono: "\<forall>k. now e k \<le> now e (Suc k)"
  shows "distinct (map uid us) \<Longrightarrow>
         \<forall>u\<in>set us. \<forall>d\<in>set (users st). uid d = uid u \<longrightarrow> ledger_le (lastNotified d) (lastNotified u) \<Longrightarrow>
         list_all2 doc_le (users st) (users (snd (for_users e us st)))"
proof (induction us arbitrary: st)
  case Nil
  show ?case by (simp add: list_all2_doc_le_refl)
next
  case (Cons u us)
  let ?st' = "snd (process_user e u st)"
  have step: "list_all2 doc_le (users st) (users ?st')"
    using Cons.prems(2) by (intro process_user_doc_le [OF mono]) simp
  show ?case
  proof (cases "fst (process_user e u st)")
    case (Some err)
    then show ?thesis using step by (auto split: prod.splits)
  next
    case None
    have d: "distinct (map uid us)" using Cons.prems(1) by simp
    have mem: "\<forall>v\<in>set us. \<forall>d\<in>set (users ?st'). uid d = uid v \<longrightarrow>
                 ledger_le (lastNotified d) (lastNotified v)"
    proof (intro ballI impI)
      fix v d assume v: "v \<in> set us" and dd: "d \<in> set (users ?st')" and eq: "uid d = uid v"
      from v Cons.prems(1) have "uid v \<noteq> uid u" by (auto simp: image_iff)
      with eq have "uid d \<noteq> uid u" by simp
      from process_user_keeps_others [OF dd this] have "d \<in> set (users st)" .
      with Cons.prems(2) v eq show "ledger_le (lastNotified d) (lastNotified v)" by simp
    qed
    from Cons.IH [OF d mem] have "list_all2 doc_le (users ?st') (users (snd (for_users e us ?st')))" .
    with step have "list_all2 doc_le (users st) (users (snd (for_users e us ?st')))"
      by (rule list_all2_doc_le_trans)
    then show ?thesis using None by (auto split: prod.splits)
  qed
qed

text \<open>
  Claim C8.  Provided the clock does not go back between two readings and the documents
  of the collection have distinct \<open>uid\<close>s: \<open>lastNotified.set\<close> in \<open>check_item\<close>, when it
  stores, leaves a ledger in which every entry is at least what it was, and after a whole
  run every document of the collection has the same \<open>uid\<close> and a ledger in which every
  entry is at least what it was before the run.
\<close>

theorem ledger_nondecreasing:
  assumes mono: "\<forall>k. now e k \<le> now e (Suc k)"
    and uniq: "distinct (map uid (users st))"
  shows "(check_item (now e) watch it (buf, ledg, k) = Inr (buf', ledg', k') \<longrightarrow>
            ledger_le ledg ledg') \<and>
         list_all2 doc_le (users st) (users (cron_job e st))"
proof
  show "check_item (now e) watch it (buf, ledg, k) = Inr (buf', ledg', k') \<longrightarrow> ledger_le ledg ledg'"
    using check_item_ledger_le [of "now e" k watch it buf ledg buf' ledg' k'] mono by blast
  show "list_all2 doc_le (users st) (users (cron_job e st))"
  proof (cases "stockData st = None \<or> db_fails e (awaits st)")
    case True
    then show ?thesis
      by (auto simp: cron_job_def User_find_def Let_def list_all2_doc_le_refl)
  next
    case False
    have "\<forall>u\<in>set (users st). \<forall>d\<in>set (users (await e st)). uid d = uid u \<longrightarrow>
            ledger_le (lastNotified d) (lastNotified u)"
      using uniq by (auto simp: distinct_map inj_on_def ledger_le_refl)
    from for_users_doc_le [OF mono uniq this] False show ?thesis
      by (auto simp: cron_job_def User_find_def Let_def)
  qed
qed

lemma old_carol_run:
  "map (\<lambda>u. (uid u, lastNotified u ''Carrot'')) (users old_carol) =
     [(''1003'', Some 1600000000000), (''1001'', None)] \<and>
   map (\<lambda>u. (uid u, lastNotified u ''Carrot'')) (users (cron_job env0 old_carol)) =
     [(''1003'', Some 1700000000001), (''1001'', Some 1700000000006)]"
  by code_simp

theorem ledger_nondecreasing_witness:
  "distinct (map uid (users old_carol)) \<and> now env0 0 \<le> now env0 (Suc 0) \<and>
   check_item (now env0) [''Carrot''] carrot ([], [''Carrot'' \<mapsto> 1600000000000], 0) =
     Inr ([''C Carrot: x50''], [''Carrot'' \<mapsto> 1700000000001], 2) \<and>
   ledger_le [''Carrot'' \<mapsto> 1600000000000] [''Carrot'' \<mapsto> 1700000000001] \<and>
   list_all2 doc_le (users old_carol) (users (cron_job env0 old_carol)) \<and>
   map (\<lambda>u. (uid u, lastNotified u ''Carrot'')) (users old_carol) =
     [(''1003'', Some 1600000000000), (''1001'', None)] \<and>
   map (\<lambda>u. (uid u, lastNotified u ''Carrot'')) (users (cron_job env0 old_carol)) =
     [(''1003'', Some 1700000000001), (''1001'', Some 1700000000006)]"
proof -
  have mono: "\<forall>k. now env0 k \<le> now env0 (Suc k)"
    by (simp add: env0_def clock0_def)
  have uniq: "distinct (map uid (users old_carol))"
    by (simp add: old_carol_def boot_def alice_def carol_def)
  have step: "check_item (now env0) [''Carrot''] carrot ([], [''Carrot'' \<mapsto> 1600000000000], 0) =
     Inr ([''C Carrot: x50''], [''Carrot'' \<mapsto> 1700000000001], 2)"
    by (simp add: check_item_def or_zero_def DAY_def env0_def clock0_def carrot_line valid_key_def)
       (simp add: carrot_def)
  from ledger_nondecreasing [OF mono uniq, of "[''Carrot'']" carrot "[]"
      "[''Carrot'' \<mapsto> 1600000000000]" 0 "[''C Carrot: x50'']" "[''Carrot'' \<mapsto> 1700000000001]" 2]
    step
  have "ledger_le [''Carrot'' \<mapsto> 1600000000000] [''Carrot'' \<mapsto> 1700000000001]"
    and "list_all2 doc_le (users old_carol) (users (cron_job env0 old_carol))"
    by blast+
  then show ?thesis using mono uniq step old_carol_run by simp
qed

subsection \<open>formatValue\<close>

lemma digit_char_value: "0 \<le> d \<Longrightarrow> d < 10 \<Longrightarrow> (of_char (digit_char d) :: int) = 48 + d"
  by (simp add: digit_char_def)

lemma numeral_value_snoc: "numeral_value (s @ [c]) = 10 * numeral_value s + (of_char c - 48)"
  by (simp add: numeral_value_def)

lemma show_int_value: "0 \<le> n \<Longrightarrow> numeral_value (show_int n) = n"
proof (induction n rule: show_int.induct)
  case (1 n)
  show ?case
  proof (cases "n < 10")
    case True
    then show ?thesis using "1.prems"
      by (subst show_int.simps) (simp add: numeral_value_def digit_char_value)
  next
    case False
    with 1 have "numeral_value (show_int (n div 10)) = n div 10" by simp
    then show ?thesis using False
      by (subst show_int.simps) (simp add: numeral_value_snoc digit_char_value)
  qed
qed

lemma ilog2_le: "1 \<le> q \<Longrightarrow> 2 ^ ilog2 q \<le> q"
proof (induction q rule: ilog2.induct)
  case (1 q)
  show ?case
  proof (cases "q < 2")
    case True
    then show ?thesis using "1.prems" by (subst ilog2.simps) simp
  next
    case False
    then have "1 \<le> q div 2" by simp
    with 1 False have "2 ^ ilog2 (q div 2) \<le> q div 2" by simp
    then have "2 * 2 ^ ilog2 (q div 2) \<le> 2 * (q div 2)" by simp
    also have "\<dots> \<le> q" by simp
    finally show ?thesis using False by (subst ilog2.simps) simp
  qed
qed

lemma round_half_even_error:
  assumes "0 < d"
  shows "2 * \<bar>round_half_even n d * d - n\<bar> \<le> d"
proof -
  define q where "q = n div d"
  define r where "r = n mod d"
  have n: "n = q * d + r" by (simp add: q_def r_def)
  have r: "0 \<le> r" "r < d" using assms by (simp_all add: r_def)
  have "round_half_even n d = (if 2 * r < d then q else if d < 2 * r then q + 1
          else if even q then q else q + 1)"
    by (simp add: round_half_even_def Let_def q_def r_def)
  then show ?thesis using r by (auto simp: n algebra_simps)
qed

lemma round_half_even_nonneg:
  assumes "0 < d" "0 \<le> n"
  shows "0 \<le> round_half_even n d"
  using assms by (auto simp: round_half_even_def Let_def pos_imp_zdiv_nonneg_iff)

lemma number_div_safe:
  assumes "0 < b" "b \<le> a" "a < 2 ^ 53"
  shows "\<exists>s M. number_div a b = of_int M / 2 ^ s \<and> 0 \<le> M \<and> b < 2 * 2 ^ s \<and>
           2 * \<bar>M * b - a * 2 ^ s\<bar> \<le> b"
proof -
  define p where "p = ilog2 (a div b)"
  have "0 < a div b" using assms by (simp add: pos_imp_zdiv_pos_iff)
  then have q1: "1 \<le> a div b" by simp
  from ilog2_le [OF q1] have "(2::int) ^ p \<le> a div b"
    by (simp add: p_def)
  then have "2 ^ p * b \<le> (a div b) * b"
    using assms(1) by (simp add: mult_right_mono)
  also have "\<dots> \<le> a"
  proof -
    have "0 \<le> a mod b" using assms(1) by simp
    moreover have "(a div b) * b + a mod b = a" by simp
    ultimately show ?thesis by linarith
  qed
  finally have pb: "2 ^ p * b \<le> a" .
  with assms have lt: "2 ^ p * b < 2 ^ 53" by linarith
  have p52: "p \<le> 52"
  proof (rule ccontr)
    assume "\<not> p \<le> 52"
    then have "53 \<le> p" by simp
    then have "(2::int) ^ 53 \<le> 2 ^ p" by (intro power_increasing) simp_all
    also have "\<dots> \<le> 2 ^ p * b" using assms(1) by (simp add: mult_le_cancel_left1)
    finally show False using lt by simp
  qed
  define s where "s = 52 - p"
  define M where "M = round_half_even (a * 2 ^ s) b"
  have eq: "number_div a b = of_int M / 2 ^ s"
  proof -
    have "number_div a b =
            (if p \<le> 52 then of_int (round_half_even (a * 2 ^ (52 - p)) b) / 2 ^ (52 - p)
             else of_int (round_half_even a (b * 2 ^ (p - 52)) * 2 ^ (p - 52)))"
      unfolding number_div_def p_def Let_def ..
    then show ?thesis using p52 by (simp add: s_def M_def)
  qed
  have "53 = p + Suc s" using p52 by (simp add: s_def)
  then have "(2::int) ^ 53 = 2 ^ (p + Suc s)" by (simp only:)
  also have "\<dots> = 2 ^ p * (2 * 2 ^ s)" by (simp only: power_add power_Suc)
  finally have e: "(2::int) ^ 53 = 2 ^ p * (2 * 2 ^ s)" .
  have "2 ^ p * b < 2 ^ p * (2 * 2 ^ s)" using lt unfolding e .
  moreover have "(0::int) < 2 ^ p" by simp
  ultimately have b: "b < 2 * 2 ^ s" by (simp only: mult_less_cancel_left_pos)
  have "0 \<le> M" unfolding M_def using assms by (intro round_half_even_nonneg) simp_all
  moreover have "2 * \<bar>M * b - a * 2 ^ s\<bar> \<le> b"
    unfolding M_def by (rule round_half_even_error [OF assms(1)])
  ultimately show ?thesis using eq b by blast
qed

lemma number_div_small:
  assumes "0 < b" "b \<le> a" "a < 2 ^ 53"
  shows "number_div a b < 10 ^ 21"
proof -
  from number_div_safe [OF assms] obtain s M where
    x: "number_div a b = of_int M / 2 ^ s" and err: "2 * \<bar>M * b - a * 2 ^ s\<bar> \<le> b"
    by blast
  define P :: int where "P = 2 ^ s"
  have P: "1 \<le> P" by (simp add: P_def)
  have a0: "0 \<le> a" using assms by simp
  have "X \<le> Y + b" if "2 * \<bar>X - Y\<bar> \<le> b" for X Y :: int
    using that assms(1) by arith
  from this [OF err] have "M * b \<le> a * P + b" by (simp only: P_def)
  also have "\<dots> \<le> a * P * b + P * b"
  proof -
    have "a * P * 1 \<le> a * P * b" using assms(1) a0 P by (intro mult_left_mono) simp_all
    moreover have "1 * b \<le> P * b" using assms(1) P by (intro mult_right_mono) simp_all
    ultimately show ?thesis by simp
  qed
  also have "\<dots> = ((a + 1) * P) * b" by (simp add: algebra_simps)
  finally have "M \<le> (a + 1) * P" using assms(1) by (simp only: mult_le_cancel_right_pos)
  then have "(of_int M :: rat) \<le> of_int ((a + 1) * P)" by (simp only: of_int_le_iff)
  then have "(of_int M :: rat) \<le> of_int (a + 1) * 2 ^ s" by (simp add: P_def)
  then have "(of_int M :: rat) / 2 ^ s \<le> of_int (a + 1)" by (simp add: field_simps)
  moreover have "a + 1 < 10 ^ 21" using assms(3) by simp
  then have "(of_int (a + 1) :: rat) < of_int (10 ^ 21)" by (simp only: of_int_less_iff)
  ultimately show ?thesis unfolding x by simp
qed

lemma nearest_tenth:
  assumes c: "0 < c" "even c" and a: "10 * c \<le> a" "a < 2 ^ 53"
  shows "0 \<le> \<lfloor>10 * number_div a (10 * c) + 1 / 2\<rfloor> \<and>
         2 * \<bar>\<lfloor>10 * number_div a (10 * c) + 1 / 2\<rfloor> * c - a\<bar> \<le> c"
proof -
  from c have b: "0 < 10 * c" by simp
  from number_div_safe [OF b a] obtain s M where
    x: "number_div a (10 * c) = of_int M / 2 ^ s" and M: "0 \<le> M"
    and small: "10 * c < 2 * 2 ^ s" and err: "2 * \<bar>M * (10 * c) - a * 2 ^ s\<bar> \<le> 10 * c"
    by blast
  define P :: int where "P = 2 ^ s"
  have P: "0 < P" by (simp add: P_def)
  define z where "z = \<lfloor>10 * number_div a (10 * c) + 1 / 2\<rfloor>"
  have "10 * (of_int M / 2 ^ s) + 1 / 2 = (of_int (20 * M + P) / of_int (2 * P) :: rat)"
    by (simp add: P_def field_simps)
  then have "10 * number_div a (10 * c) + 1 / 2 = (of_int (20 * M + P) / of_int (2 * P) :: rat)"
    by (simp only: x)
  then have zdiv: "z = (20 * M + P) div (2 * P)"
    unfolding z_def by (simp only: floor_divide_of_int_eq)
  define r where "r = (20 * M + P) mod (2 * P)"
  have r: "0 \<le> r" "r < 2 * P" using P by (simp_all add: r_def)
  have split: "20 * M + P = 2 * P * z + r"
    by (simp add: zdiv r_def)
  have z0: "0 \<le> z"
    unfolding zdiv using M P by (intro pos_imp_zdiv_nonneg_iff [THEN iffD2]) simp_all
  have err': "\<bar>10 * (M * c) - a * P\<bar> \<le> 5 * c"
    using err by (simp add: P_def algebra_simps)
  have small': "5 * c < P" using small by (simp add: P_def)
  define D where "D = z * c - a"
  have rc: "0 \<le> r * c" "r * c < 2 * P * c"
    using r c(1) by (simp_all add: mult_strict_right_mono)
  have "(20 * M + P) * c = (2 * P * z + r) * c" by (simp only: split)
  then have key: "20 * (M * c) + P * c = 2 * (P * (z * c)) + r * c"
    by (simp add: algebra_simps)
  have up: "2 * (P * D) < P * (c + 2)"
  proof -
    have "2 * (P * D) = 2 * (P * (z * c)) - 2 * (a * P)" by (simp add: D_def algebra_simps)
    also have "\<dots> = 20 * (M * c) + P * c - r * c - 2 * (a * P)" using key by simp
    also have "\<dots> \<le> 10 * c + P * c" using err' rc by linarith
    also have "\<dots> < P * (c + 2)" using small' by (simp add: algebra_simps)
    finally show ?thesis .
  qed
  have lo: "- (P * (c + 2)) < 2 * (P * D)"
  proof -
    have "- (P * (c + 2)) < - 10 * c - P * c" using small' by (simp add: algebra_simps)
    also have "\<dots> < 20 * (M * c) + P * c - r * c - 2 * (a * P)"
      using err' rc by linarith
    also have "\<dots> = 2 * (P * (z * c)) - 2 * (a * P)" using key by simp
    also have "\<dots> = 2 * (P * D)" by (simp add: D_def algebra_simps)
    finally show ?thesis .
  qed
  from up have "P * (2 * D) < P * (c + 2)" by (simp add: algebra_simps)
  then have u: "2 * D < c + 2" using P by (simp only: mult_less_cancel_left_pos)
  from lo have "P * (- (c + 2)) < P * (2 * D)" by (simp add: algebra_simps)
  then have l: "- (c + 2) < 2 * D" using P by (simp only: mult_less_cancel_left_pos)
  from c(2) obtain h where h: "c = 2 * h" by (auto elim: evenE)
  from u l have "2 * \<bar>D\<bar> \<le> c" unfolding h by presburger
  then show ?thesis using z0 by (simp add: z_def D_def)
qed


lemma toFixed1_nearest:
  assumes c: "0 < c" "even c" and a: "10 * c \<le> a" "a < 2 ^ 53"
  shows "\<exists>n. 0 \<le> n \<and>
             toFixed1 (number_div a (10 * c)) = show_int (n div 10) @ ''.'' @ show_int (n mod 10) \<and>
             \<bar>of_int n / 10 - of_int a / of_int (10 * c)\<bar> \<le> (1 / 20 :: rat)"
proof -
  define z where "z = \<lfloor>10 * number_div a (10 * c) + 1 / 2\<rfloor>"
  from c have b: "0 < 10 * c" by simp
  from nearest_tenth [OF c a] have z0: "0 \<le> z" and near: "2 * \<bar>z * c - a\<bar> \<le> c"
    by (simp_all add: z_def)
  from number_div_small [OF b a] have "\<not> 10 ^ 21 \<le> number_div a (10 * c)"
    by simp
  then have "toFixed1 (number_div a (10 * c)) = show_int (z div 10) @ ''.'' @ show_int (z mod 10)"
    by (simp add: toFixed1_def Let_def z_def)
  moreover have "\<bar>of_int z / 10 - of_int a / of_int (10 * c)\<bar> \<le> (1 / 20 :: rat)"
  proof -
    have "(of_int z / 10 - of_int a / of_int (10 * c) :: rat) = of_int (z * c - a) / of_int (10 * c)"
      using c(1) by (simp add: field_simps)
    moreover have "\<bar>of_int (z * c - a) / of_int (10 * c)\<bar> \<le> (1 / 20 :: rat)"
    proof -
      have "(of_int (2 * \<bar>z * c - a\<bar>) :: rat) \<le> of_int c"
        using near by (simp only: of_int_le_iff)
      then have "2 * \<bar>of_int (z * c - a)\<bar> \<le> (of_int c :: rat)" by simp
      moreover have "(0 :: rat) < of_int c" using c(1) by simp
      ultimately show ?thesis
        by (simp add: abs_divide field_simps abs_of_pos)
    qed
    ultimately show ?thesis by simp
  qed
  ultimately show ?thesis using z0 by blast
qed

text \<open>
  Claim C9 as stated fails for large quantities.  The Number \<open>2 ^ 90\<close> is an integer; its
  quotient by 1000000 is not below \<open>10 ^ 21\<close>, where \<open>toFixed\<close> returns the exponent
  notation of \<open>toString\<close>, with sixteen decimals.  And the Number 288230376152249984,
  above \<open>2 ^ 53\<close>, is rendered with the decimal 3, though the tenth nearest to
  288230376152.249984 is 288230376152.2: the binary64 quotient is 288230376152.25.
\<close>

theorem exponent_notation_counterexample:
  "(2::int) ^ 90 = 1237940039285380274899124224 \<and>
   formatValue (2 ^ 90) = ''x1.2379400392853802e+21M'' \<and>
   formatValue 288230376152249984 = ''x288230376152.3M''"
  by code_simp

text \<open>
  Claim C9, as amended.  For every integer \<open>v\<close> from 0 up to \<open>2 ^ 53\<close>, where a Number holds
  every integer: below 1000 the result is \<open>x\<close> and the numeral of \<open>v\<close>; from 1000 up to
  1000000 it is \<open>x\<close>, a numeral with one decimal and \<open>K\<close>, where the numeral is a multiple
  of a tenth nearest to \<open>v / 1000\<close>; from 1000000 on it is the same with \<open>M\<close> and
  \<open>v / 1000000\<close>.  A quotient that lies exactly between two tenths goes up or down as its
  binary64 value lies (1250 gives \<open>x1.3K\<close>, 1150 gives \<open>x1.1K\<close>).  And 999, 1500 and
  2300000 give \<open>x999\<close>, \<open>x1.5K\<close> and \<open>x2.3M\<close>.
\<close>

theorem formatValue_rounds_to_one_decimal:
  assumes "0 \<le> v" and "v < 2 ^ 53"
  shows "(v < 1000 \<longrightarrow> formatValue v = ''x'' @ show_int v \<and> numeral_value (show_int v) = v) \<and>
         (1000 \<le> v \<and> v < 1000000 \<longrightarrow>
            (\<exists>n. 0 \<le> n \<and>
                 formatValue v = ''x'' @ show_int (n div 10) @ ''.'' @ show_int (n mod 10) @ ''K'' \<and>
                 numeral_value (show_int (n div 10)) = n div 10 \<and>
                 numeral_value (show_int (n mod 10)) = n mod 10 \<and>
                 \<bar>of_int n / 10 - of_int v / 1000\<bar> \<le> (1 / 20 :: rat))) \<and>
         (1000000 \<le> v \<longrightarrow>
            (\<exists>n. 0 \<le> n \<and>
                 formatValue v = ''x'' @ show_int (n div 10) @ ''.'' @ show_int (n mod 10) @ ''M'' \<and>
                 numeral_value (show_int (n div 10)) = n div 10 \<and>
                 numeral_value (show_int (n mod 10)) = n mod 10 \<and>
                 \<bar>of_int n / 10 - of_int v / 1000000\<bar> \<le> (1 / 20 :: rat))) \<and>
         formatValue 999 = ''x999'' \<and> formatValue 1500 = ''x1.5K'' \<and>
         formatValue 2300000 = ''x2.3M''"
proof (intro conjI impI)
  have digits: "numeral_value (show_int (n div 10)) = n div 10 \<and>
      numeral_value (show_int (n mod 10)) = n mod 10" if "0 \<le> n" for n :: int
    using that by (simp add: show_int_value pos_imp_zdiv_nonneg_iff)
  show "formatValue v = ''x'' @ show_int v" if "v < 1000"
    using that by (simp add: formatValue_def)
  show "numeral_value (show_int v) = v" if "v < 1000"
    using assms(1) by (rule show_int_value)
  show "\<exists>n. 0 \<le> n \<and>
                 formatValue v = ''x'' @ show_int (n div 10) @ ''.'' @ show_int (n mod 10) @ ''K'' \<and>
                 numeral_value (show_int (n div 10)) = n div 10 \<and>
                 numeral_value (show_int (n mod 10)) = n mod 10 \<and>
                 \<bar>of_int n / 10 - of_int v / 1000\<bar> \<le> (1 / 20 :: rat)"
    if "1000 \<le> v \<and> v < 1000000"
  proof -
    from that have "10 * 100 \<le> v" by simp
    from toFixed1_nearest [OF _ _ this assms(2)] obtain n where "0 \<le> n"
      and "toFixed1 (number_div v (10 * 100)) = show_int (n div 10) @ ''.'' @ show_int (n mod 10)"
      and "\<bar>of_int n / 10 - of_int v / of_int (10 * 100)\<bar> \<le> (1 / 20 :: rat)"
      by auto
    with that digits [of n] show ?thesis
      by (intro exI [of _ n]) (simp add: formatValue_def)
  qed
  show "\<exists>n. 0 \<le> n \<and>
                 formatValue v = ''x'' @ show_int (n div 10) @ ''.'' @ show_int (n mod 10) @ ''M'' \<and>
                 numeral_value (show_int (n div 10)) = n div 10 \<and>
                 numeral_value (show_int (n mod 10)) = n mod 10 \<and>
                 \<bar>of_int n / 10 - of_int v / 1000000\<bar> \<le> (1 / 20 :: rat)"
    if "1000000 \<le> v"
  proof -
    from that have "10 * 100000 \<le> v" by simp
    from toFixed1_nearest [OF _ _ this assms(2)] obtain n where "0 \<le> n"
      and "toFixed1 (number_div v (10 * 100000)) = show_int (n div 10) @ ''.'' @ show_int (n mod 10)"
      and "\<bar>of_int n / 10 - of_int v / of_int (10 * 100000)\<bar> \<le> (1 / 20 :: rat)"
      by auto
    with that digits [of n] show ?thesis
      by (intro exI [of _ n]) (simp add: formatValue_def)
  qed
  show "formatValue 999 = ''x999''" by code_simp
  show "formatValue 1500 = ''x1.5K''" by code_simp
  show "formatValue 2300000 = ''x2.3M''" by code_simp
qed

lemma format_samples:
  "formatValue 1150 = ''x1.1K'' \<and> formatValue 1250 = ''x1.3K'' \<and>
   formatValue 9007199254740991 = ''x9007199254.7M''"
  by code_simp

theorem formatValue_rounds_to_one_decimal_witness:
  "(0::int) \<le> 999 \<and> (999::int) < 2 ^ 53 \<and> (999::int) < 1000 \<and>
   formatValue 999 = ''x'' @ show_int 999 \<and> numeral_value (show_int 999) = 999 \<and>
   (0::int) \<le> 1150 \<and> (1150::int) < 2 ^ 53 \<and> formatValue 1150 = ''x1.1K'' \<and>
   (\<exists>n. 0 \<le> n \<and>
        formatValue 1150 = ''x'' @ show_int (n div 10) @ ''.'' @ show_int (n mod 10) @ ''K'' \<and>
        \<bar>of_int n / 10 - of_int 1150 / 1000\<bar> \<le> (1 / 20 :: rat)) \<and>
   (0::int) \<le> 9007199254740991 \<and> (9007199254740991::int) < 2 ^ 53 \<and>
   formatValue 9007199254740991 = ''x9007199254.7M'' \<and>
   (\<exists>n. 0 \<le> n \<and>
        formatValue 9007199254740991 =
          ''x'' @ show_int (n div 10) @ ''.'' @ show_int (n mod 10) @ ''M'' \<and>
        \<bar>of_int n / 10 - of_int 9007199254740991 / 1000000\<bar> \<le> (1 / 20 :: rat))"
proof -
  from formatValue_rounds_to_one_decimal [of 1150]
  have "\<exists>n. 0 \<le> n \<and>
        formatValue 1150 = ''x'' @ show_int (n div 10) @ ''.'' @ show_int (n mod 10) @ ''K'' \<and>
        \<bar>of_int n / 10 - of_int 1150 / 1000\<bar> \<le> (1 / 20 :: rat)"
    by auto
  moreover from formatValue_rounds_to_one_decimal [of 9007199254740991]
  have "\<exists>n. 0 \<le> n \<and>
        formatValue 9007199254740991 =
          ''x'' @ show_int (n div 10) @ ''.'' @ show_int (n mod 10) @ ''M'' \<and>
        \<bar>of_int n / 10 - of_int 9007199254740991 / 1000000\<bar> \<le> (1 / 20 :: rat)"
    by auto
  moreover from formatValue_rounds_to_one_decimal [of 999]
  have "formatValue 999 = ''x'' @ show_int 999 \<and> numeral_value (show_int 999) = 999"
    by simp
  ultimately show ?thesis using format_samples by simp
qed

end
